theory Spec2Isabelle
  imports Main "HOL-Library.Monad_Syntax" "HOL-Library.AList" "HOL-Library.Sublist"
    "HOL-Library.Char_ord" "HOL-Library.List_Lexorder"
begin

section \<open>The project scanner (scanner.ts): call graph and analyses\<close>

text \<open>
  A shallow embedding of \<^verbatim>\<open>ProjectScanner\<close> of
  \<^verbatim>\<open>src/user-scripts/project-scanner/scanner.ts\<close>. The syntax tree that ts-morph
  hands to the scanner is the input of the model: a source file is a record of the
  declarations the scanner reads from it. Strings are lists of code units below 256.
  The scanner's private maps are the fields of a state record that every pass takes
  and returns.
\<close>

subsection \<open>JavaScript maps, sets and strings\<close>

text \<open>
  A JavaScript \<^verbatim>\<open>Map\<close> keeps its keys in the order of their first insertion and
  \<^verbatim>\<open>set\<close> on a present key replaces the value in place: an association list under
  \<^const>\<open>AList.update\<close>. A \<^verbatim>\<open>Set\<close> is the list of its members in insertion order.
\<close>

type_synonym 'v jsmap = "(string \<times> 'v) list"
type_synonym jsset = "string list"

definition mapGet :: "'v jsmap \<Rightarrow> string \<Rightarrow> 'v option" where
  "mapGet m k = map_of m k"

definition mapHas :: "'v jsmap \<Rightarrow> string \<Rightarrow> bool" where
  "mapHas m k = (map_of m k \<noteq> None)"

definition mapSet :: "string \<Rightarrow> 'v \<Rightarrow> 'v jsmap \<Rightarrow> 'v jsmap" where
  "mapSet k v m = AList.update k v m"

definition setAdd :: "string \<Rightarrow> jsset \<Rightarrow> jsset" where
  "setAdd x xs = (if x \<in> set xs then xs else xs @ [x])"

definition newSet :: "string list \<Rightarrow> jsset" where
  "newSet xs = fold setAdd xs []"

text \<open>A string is truthy when it is not empty; \<^verbatim>\<open>undefined\<close> is \<^const>\<open>None\<close>.\<close>

definition truthy :: "string option \<Rightarrow> string option" where
  "truthy v = (case v of None \<Rightarrow> None | Some s \<Rightarrow> if s = [] then None else Some s)"

definition startsWith :: "string \<Rightarrow> string \<Rightarrow> bool" where
  "startsWith s p = (take (length p) s = p)"

definition endsWith :: "string \<Rightarrow> string \<Rightarrow> bool" where
  "endsWith s p = (length p \<le> length s \<and> drop (length s - length p) s = p)"

text \<open>The classes \<^verbatim>\<open>\w\<close> and \<^verbatim>\<open>\s\<close> of a JavaScript regular expression.\<close>

definition isWordChar :: "char \<Rightarrow> bool" where
  "isWordChar c =
     (let n = (of_char c :: nat)
      in (48 \<le> n \<and> n \<le> 57) \<or> (65 \<le> n \<and> n \<le> 90) \<or> n = 95 \<or> (97 \<le> n \<and> n \<le> 122))"

definition isSpace :: "char \<Rightarrow> bool" where
  "isSpace c = ((of_char c :: nat) \<in> {9, 10, 11, 12, 13, 32, 160})"

subsection \<open>The regular expressions of the scanner\<close>

text \<open>
  Each pattern of the source is a sequence of literals, \<^verbatim>\<open>\s*\<close> and \<^verbatim>\<open>\w+\<close>. A greedy
  \<^verbatim>\<open>\w+\<close> is always followed in these patterns by \<^verbatim>\<open>\s*\<close> and a literal that is no word
  character (or by the end of the pattern), so giving a character back never helps: the
  group is the longest run of word characters, and the match at a position is unique.
  \<^verbatim>\<open>_?\w+\<close> matches the same runs as \<^verbatim>\<open>\w+\<close>, the underscore being a word character.
  A pattern without \<^verbatim>\<open>^\<close> is tried at every position from the left.
\<close>

fun lit :: "string \<Rightarrow> string \<Rightarrow> string option" where
  "lit [] s = Some s"
| "lit (p # ps) [] = None"
| "lit (p # ps) (c # cs) = (if p = c then lit ps cs else None)"

definition word :: "string \<Rightarrow> (string \<times> string) option" where
  "word s = (if takeWhile isWordChar s = [] then None
             else Some (takeWhile isWordChar s, dropWhile isWordChar s))"

definition spaces :: "string \<Rightarrow> string" where
  "spaces s = dropWhile isSpace s"

fun search :: "(string \<Rightarrow> 'a option) \<Rightarrow> string \<Rightarrow> 'a option" where
  "search f [] = f []"
| "search f (c # cs) = (case f (c # cs) of Some r \<Rightarrow> Some r | None \<Rightarrow> search f cs)"

text \<open>\<^verbatim>\<open>/^this\.(_?\w+)\s*\.\s*(\w+)/\<close>, with the rest of the text after the match.\<close>

definition simpleMatchRest :: "string \<Rightarrow> ((string \<times> string) \<times> string) option" where
  "simpleMatchRest call = do {
     r1 \<leftarrow> lit ''this.'' call;
     (propName, r2) \<leftarrow> word r1;
     r3 \<leftarrow> lit ''.'' (spaces r2);
     (methodName, r4) \<leftarrow> word (spaces r3);
     Some ((propName, methodName), r4)
   }"

definition simpleMatch :: "string \<Rightarrow> (string \<times> string) option" where
  "simpleMatch call = map_option fst (simpleMatchRest call)"

text \<open>\<^verbatim>\<open>/^this\.(_?\w+)\s*\.\s*(\w+)\s*\.\s*(\w+)/\<close>\<close>

definition nestedMatch :: "string \<Rightarrow> (string \<times> string \<times> string) option" where
  "nestedMatch call = do {
     ((propName, nestedProp), r4) \<leftarrow> simpleMatchRest call;
     r5 \<leftarrow> lit ''.'' (spaces r4);
     (methodName, r6) \<leftarrow> word (spaces r5);
     Some (propName, nestedProp, methodName)
   }"

text \<open>\<^verbatim>\<open>inject\s*\(\s*(\w+)\s*\)\<close> at the head of a text, with the rest after it.\<close>

definition injectTypeAt :: "string \<Rightarrow> (string \<times> string) option" where
  "injectTypeAt s = do {
     r1 \<leftarrow> lit ''inject'' s;
     r2 \<leftarrow> lit ''('' (spaces r1);
     (typeName, r3) \<leftarrow> word (spaces r2);
     r4 \<leftarrow> lit '')'' (spaces r3);
     Some (typeName, r4)
   }"

text \<open>\<^verbatim>\<open>/inject\s*\(\s*(\w+)\s*\)/\<close> (property initializers)\<close>

definition injectTypeMatch :: "string \<Rightarrow> string option" where
  "injectTypeMatch s = search (\<lambda>t. map_option fst (injectTypeAt t)) s"

text \<open>\<^verbatim>\<open>/^inject\s*\(\s*(\w+)\s*\)/\<close> (local variable initializers)\<close>

definition localInjectMatch :: "string \<Rightarrow> string option" where
  "localInjectMatch s = map_option fst (injectTypeAt s)"

text \<open>\<^verbatim>\<open>/inject\s*\(\s*(\w+)\s*\)\s*\.\s*(\w+)/\<close>\<close>

definition injectAt :: "string \<Rightarrow> (string \<times> string) option" where
  "injectAt s = do {
     (serviceClass, r4) \<leftarrow> injectTypeAt s;
     r5 \<leftarrow> lit ''.'' (spaces r4);
     (methodName, r6) \<leftarrow> word (spaces r5);
     Some (serviceClass, methodName)
   }"

definition injectMatch :: "string \<Rightarrow> (string \<times> string) option" where
  "injectMatch call = search injectAt call"

text \<open>\<^verbatim>\<open>/^(\w+)\s*\.\s*(\w+)/\<close>\<close>

definition localVarMatch :: "string \<Rightarrow> (string \<times> string) option" where
  "localVarMatch call = do {
     (varName, r1) \<leftarrow> word call;
     r2 \<leftarrow> lit ''.'' (spaces r1);
     (methodName, r3) \<leftarrow> word (spaces r2);
     Some (varName, methodName)
   }"

text \<open>\<^verbatim>\<open>/(\w+)\s*\(/\<close> (template expressions)\<close>

definition methodCallAt :: "string \<Rightarrow> string option" where
  "methodCallAt s = do {
     (name, r1) \<leftarrow> word s;
     r2 \<leftarrow> lit ''('' (spaces r1);
     Some name
   }"

definition methodMatch :: "string \<Rightarrow> string option" where
  "methodMatch expression = search methodCallAt expression"

text \<open>\<^verbatim>\<open>/this\.(_?\w+)\./\<close> (service usage in the summary)\<close>

definition serviceAt :: "string \<Rightarrow> string option" where
  "serviceAt s = do {
     r1 \<leftarrow> lit ''this.'' s;
     (propName, r2) \<leftarrow> word r1;
     r3 \<leftarrow> lit ''.'' r2;
     Some propName
   }"

definition serviceMatch :: "string \<Rightarrow> string option" where
  "serviceMatch call = search serviceAt call"

subsection \<open>The syntax tree read by the scanner\<close>

datatype Framework = Angular | React | Generic

datatype BindingType = Event | Property | Interpolation | Structural

record TemplateBinding =
  binding_type :: BindingType
  binding_expression :: string

record ParamInfo =
  param_name :: string
  param_type :: string

text \<open>
  A method declaration. \<open>md_callTexts\<close> holds, for every call expression among the
  descendants of the body in traversal order, the text of the called expression.
\<close>

record MethodDecl =
  md_name :: string
  md_line :: nat
  md_params :: "ParamInfo list"
  md_returnType :: string
  md_modifiers :: "string list"
  md_decorators :: "string list"
  md_callTexts :: "string list"

record PropertyDecl =
  pd_name :: string
  pd_line :: nat
  pd_type :: string
  pd_modifiers :: "string list"
  pd_decorators :: "string list"
  pd_initializer :: "string option"

text \<open>
  A class declaration. \<open>cd_ctorParams\<close> is the parameter list of the first
  constructor (name and text of the type node). \<open>cd_component\<close> is present when the
  class carries a \<^verbatim>\<open>Component\<close> decorator with an argument, and holds the bindings that
  \<^verbatim>\<open>parseAngularTemplate\<close> extracts from its external template (when the file exists)
  followed by those of its inline template.
\<close>

record ClassDecl =
  cd_name :: "string option"
  cd_line :: nat
  cd_exported :: bool
  cd_extends :: "string option"
  cd_implements :: "string list"
  cd_decorators :: "string list"
  cd_methods :: "MethodDecl list"
  cd_properties :: "PropertyDecl list"
  cd_ctorParams :: "(string \<times> string option) list option"
  cd_component :: "TemplateBinding list option"

text \<open>
  The body of a function: its parameters, the call texts as for a method, and the
  variable declarations among its descendants (name and text of the initializer).
\<close>

record FunctionBody =
  fb_params :: "ParamInfo list"
  fb_returnType :: string
  fb_callTexts :: "string list"
  fb_varDecls :: "(string \<times> string option) list"

record FunctionDecl =
  fd_name :: "string option"
  fd_line :: nat
  fd_exported :: bool
  fd_body :: FunctionBody

datatype Initializer = ArrowFunction FunctionBody | FunctionExpression FunctionBody | OtherExpression

record VariableDecl =
  vd_name :: string
  vd_line :: nat
  vd_exported :: bool
  vd_initializer :: "Initializer option"

record ImportInfo =
  import_module :: string
  import_named :: "string list"

record SourceFile =
  sf_path :: string
  sf_relativePath :: string
  sf_imports :: "ImportInfo list"
  sf_namedExports :: "string list"
  sf_classes :: "ClassDecl list"
  sf_functions :: "FunctionDecl list"
  sf_variables :: "VariableDecl list"

subsection \<open>The extracted model (types.ts)\<close>

text \<open>
  The interfaces of \<^verbatim>\<open>types.ts\<close>, which \<^verbatim>\<open>scanner.ts\<close> imports; the text of
  \<^verbatim>\<open>types.ts\<close> is kept in \<^verbatim>\<open>src/skills/angular-coding/standalone.md\<close>. The
  framework of \<^verbatim>\<open>ScanConfig\<close>, the template bindings, parameters and imports are
  above; \<^verbatim>\<open>MethodInfo\<close>, \<^verbatim>\<open>PropertyInfo\<close>, \<^verbatim>\<open>ClassInfo\<close>, \<^verbatim>\<open>FunctionInfo\<close>
  and \<^verbatim>\<open>FileInfo\<close> are below, field for field. An optional field is an option.
\<close>

record MethodInfo =
  method_name :: string
  method_line :: nat
  method_params :: "ParamInfo list"
  method_returnType :: string
  method_modifiers :: "string list"
  method_decorators :: "string list"
  method_calls :: "string list"
  method_calledBy :: "string list"
  method_callChain :: "string list list option"

record PropertyInfo =
  property_name :: string
  property_line :: nat
  property_type :: string
  property_modifiers :: "string list"
  property_decorators :: "string list"
  property_initializer :: "string option"

record ClassInfo =
  class_name :: string
  class_line :: nat
  class_extends :: "string option"
  class_implements :: "string list"
  class_decorators :: "string list"
  class_methods :: "MethodInfo list"
  class_properties :: "PropertyInfo list"

record FunctionInfo =
  function_name :: string
  function_line :: nat
  function_params :: "ParamInfo list"
  function_returnType :: string
  function_calls :: "string list"
  function_exported :: bool

record FileInfo =
  file_path :: string
  file_relativePath :: string
  file_imports :: "ImportInfo list"
  file_exports :: "string list"
  file_classes :: "ClassInfo list"
  file_functions :: "FunctionInfo list"
  file_templateBindings :: "TemplateBinding list option"

subsection \<open>The scanner's state\<close>

record ScannerState =
  callGraph :: "jsset jsmap"
  reverseCallGraph :: "jsset jsmap"
  classMethodsMap :: "jsset jsmap"
  injectionMap :: "string jsmap jsmap"
  nestedInjectionMap :: "string jsmap jsmap"
  localInjectionMap :: "string jsmap jsmap"

definition initialState :: ScannerState where
  "initialState = \<lparr> callGraph = [], reverseCallGraph = [], classMethodsMap = [],
     injectionMap = [], nestedInjectionMap = [], localInjectionMap = [] \<rparr>"

text \<open>
  \<^verbatim>\<open>if (!g.has(k)) g.set(k, new Set()); g.get(k)!.add(v);\<close>
\<close>

definition addEdge :: "string \<Rightarrow> string \<Rightarrow> jsset jsmap \<Rightarrow> jsset jsmap" where
  "addEdge k v g =
     (let g1 = (if mapHas g k then g else mapSet k [] g)
      in case mapGet g1 k of Some vs \<Rightarrow> mapSet k (setAdd v vs) g1 | None \<Rightarrow> g1)"

text \<open>\<^verbatim>\<open>xs.map(f)\<close> for an \<open>f\<close> that changes the scanner's state.\<close>

fun mapState :: "('a \<Rightarrow> 's \<Rightarrow> 'b \<times> 's) \<Rightarrow> 'a list \<Rightarrow> 's \<Rightarrow> 'b list \<times> 's" where
  "mapState f [] st = ([], st)"
| "mapState f (x # xs) st =
     (let (y, st1) = f x st; (ys, st2) = mapState f xs st1 in (y # ys, st2))"

subsection \<open>Pass 1: collectClassInfo\<close>

definition orAnonymous :: "string option \<Rightarrow> string" where
  "orAnonymous n = (case truthy n of Some s \<Rightarrow> s | None \<Rightarrow> ''anonymous'')"

definition collectProperty :: "PropertyDecl \<Rightarrow> string jsmap \<Rightarrow> string jsmap" where
  "collectProperty prop injections =
     (let initializer = (case truthy (pd_initializer prop) of Some t \<Rightarrow> t | None \<Rightarrow> [])
      in case injectTypeMatch initializer of
           Some typeName \<Rightarrow> mapSet (pd_name prop) typeName injections
         | None \<Rightarrow> injections)"

definition collectParam :: "jsset jsmap \<Rightarrow> string \<times> string option \<Rightarrow> string jsmap \<Rightarrow> string jsmap" where
  "collectParam cmm param injections =
     (case snd param of
        None \<Rightarrow> injections
      | Some typeName \<Rightarrow>
          if endsWith typeName ''Service'' \<or> mapHas cmm typeName
          then mapSet (fst param) typeName injections else injections)"

definition collectClass ::
  "ClassDecl \<Rightarrow> ScannerState \<times> string jsmap jsmap \<Rightarrow> ScannerState \<times> string jsmap jsmap" where
  "collectClass cls acc =
     (case truthy (cd_name cls) of
        None \<Rightarrow> acc
      | Some className \<Rightarrow>
          let (st, classPropertiesMap) = acc;
              methods = newSet (map md_name (cd_methods cls));
              st1 = st\<lparr>classMethodsMap := mapSet className methods (classMethodsMap st)\<rparr>;
              injections1 = fold collectProperty (cd_properties cls) [];
              injections2 = (case cd_ctorParams cls of
                               None \<Rightarrow> injections1
                             | Some params \<Rightarrow> fold (collectParam (classMethodsMap st1)) params injections1)
          in if length injections2 > 0
             then (st1\<lparr>injectionMap := mapSet className injections2 (injectionMap st1)\<rparr>,
                   mapSet className injections2 classPropertiesMap)
             else (st1, classPropertiesMap))"

definition collectClassInfo :: "SourceFile list \<Rightarrow> ScannerState \<Rightarrow> ScannerState" where
  "collectClassInfo sourceFiles st =
     (let (st1, classPropertiesMap) =
            fold (\<lambda>sourceFile. fold collectClass (sf_classes sourceFile)) sourceFiles (st, [])
      in st1\<lparr>nestedInjectionMap := classPropertiesMap\<rparr>)"

subsection \<open>The extractor: scanFile\<close>

text \<open>\<^verbatim>\<open>callName.replace(/\s+/g, ' ').trim()\<close>\<close>

function collapseSpaces :: "string \<Rightarrow> string" where
  "collapseSpaces [] = []"
| "collapseSpaces (c # cs) =
     (if isSpace c then CHR '' '' # collapseSpaces (dropWhile isSpace cs)
      else c # collapseSpaces cs)"
  by pat_completeness auto
termination
  by (relation "measure length") (auto simp: le_imp_less_Suc length_dropWhile_le)

definition trim :: "string \<Rightarrow> string" where
  "trim s = rev (dropWhile isSpace (rev (dropWhile isSpace s)))"

definition extractCalls :: "string list \<Rightarrow> string list" where
  "extractCalls callTexts =
     newSet (filter (\<lambda>callName. callName \<noteq> []) (map (\<lambda>t. trim (collapseSpaces t)) callTexts))"

definition extractLocalInjections :: "(string \<times> string option) list \<Rightarrow> string jsmap" where
  "extractLocalInjections varDecls =
     fold (\<lambda>varDecl localMap.
             let initText = (case truthy (snd varDecl) of Some t \<Rightarrow> t | None \<Rightarrow> [])
             in case localInjectMatch initText of
                  Some typeName \<Rightarrow> mapSet (fst varDecl) typeName localMap
                | None \<Rightarrow> localMap)
          varDecls []"

definition cleanType :: "string \<Rightarrow> string" where
  "cleanType typeStr = (if typeStr = [] then ''any'' else typeStr)"

definition cleanParams :: "ParamInfo list \<Rightarrow> ParamInfo list" where
  "cleanParams ps = map (\<lambda>p. \<lparr> param_name = param_name p, param_type = cleanType (param_type p) \<rparr>) ps"

definition scanMethod :: "string \<Rightarrow> MethodDecl \<Rightarrow> ScannerState \<Rightarrow> MethodInfo \<times> ScannerState" where
  "scanMethod className method st =
     (let methodName = md_name method;
          fullName = className @ ''.'' @ methodName;
          calls = extractCalls (md_callTexts method);
          st1 = st\<lparr>callGraph := mapSet fullName (newSet calls) (callGraph st)\<rparr>;
          st2 = st1\<lparr>reverseCallGraph :=
                   fold (\<lambda>call g. addEdge call fullName g) calls (reverseCallGraph st1)\<rparr>
      in (\<lparr> method_name = methodName, method_line = md_line method,
            method_params = cleanParams (md_params method),
            method_returnType = cleanType (md_returnType method),
            method_modifiers = md_modifiers method,
            method_decorators = map (\<lambda>d. ''@'' @ d) (md_decorators method),
            method_calls = calls, method_calledBy = [], method_callChain = None \<rparr>, st2))"

definition scanProperty :: "PropertyDecl \<Rightarrow> PropertyInfo" where
  "scanProperty prop =
     \<lparr> property_name = pd_name prop, property_line = pd_line prop,
       property_type = cleanType (pd_type prop),
       property_modifiers = pd_modifiers prop,
       property_decorators = map (\<lambda>d. ''@'' @ d) (pd_decorators prop),
       property_initializer = map_option (take 100) (pd_initializer prop) \<rparr>"

definition scanClass :: "ClassDecl \<Rightarrow> ScannerState \<Rightarrow> ClassInfo \<times> ScannerState" where
  "scanClass cls st =
     (let className = orAnonymous (cd_name cls);
          (methods, st1) = mapState (scanMethod className) (cd_methods cls) st
      in (\<lparr> class_name = className, class_line = cd_line cls,
            class_extends = cd_extends cls, class_implements = cd_implements cls,
            class_decorators = map (\<lambda>d. ''@'' @ d) (cd_decorators cls),
            class_methods = methods,
            class_properties = map scanProperty (cd_properties cls) \<rparr>, st1))"

definition getClasses :: "SourceFile \<Rightarrow> ScannerState \<Rightarrow> ClassInfo list \<times> ScannerState" where
  "getClasses sourceFile st = mapState scanClass (sf_classes sourceFile) st"

text \<open>
  What \<^verbatim>\<open>scanFunction\<close> and the variable branch of \<^verbatim>\<open>getFunctions\<close> do with a
  function body under a name: the forward graph and the local injections.
\<close>

definition recordFunction :: "string \<Rightarrow> FunctionBody \<Rightarrow> ScannerState \<Rightarrow> string list \<times> ScannerState" where
  "recordFunction fnName body st =
     (let calls = extractCalls (fb_callTexts body);
          st1 = st\<lparr>callGraph := mapSet fnName (newSet calls) (callGraph st)\<rparr>;
          localInjections = extractLocalInjections (fb_varDecls body);
          st2 = (if length localInjections > 0
                 then st1\<lparr>localInjectionMap := mapSet fnName localInjections (localInjectionMap st1)\<rparr>
                 else st1)
      in (calls, st2))"

definition scanFunction :: "FunctionDecl \<Rightarrow> ScannerState \<Rightarrow> FunctionInfo \<times> ScannerState" where
  "scanFunction fn st =
     (let fnName = orAnonymous (fd_name fn);
          (calls, st1) = recordFunction fnName (fd_body fn) st
      in (\<lparr> function_name = fnName, function_line = fd_line fn,
            function_params = cleanParams (fb_params (fd_body fn)),
            function_returnType = cleanType (fb_returnType (fd_body fn)),
            function_calls = calls, function_exported = fd_exported fn \<rparr>, st1))"

definition functionBody :: "Initializer \<Rightarrow> FunctionBody option" where
  "functionBody init = (case init of ArrowFunction b \<Rightarrow> Some b | FunctionExpression b \<Rightarrow> Some b
                        | OtherExpression \<Rightarrow> None)"

definition scanVariable :: "VariableDecl \<Rightarrow> ScannerState \<Rightarrow> FunctionInfo list \<times> ScannerState" where
  "scanVariable varDecl st =
     (case vd_initializer varDecl of
        None \<Rightarrow> ([], st)
      | Some init \<Rightarrow>
          (case functionBody init of
             None \<Rightarrow> ([], st)
           | Some body \<Rightarrow>
               let fnName = vd_name varDecl;
                   (calls, st1) = recordFunction fnName body st
               in ([\<lparr> function_name = fnName, function_line = vd_line varDecl,
                      function_params = cleanParams (fb_params body),
                      function_returnType = cleanType (fb_returnType body),
                      function_calls = calls, function_exported = vd_exported varDecl \<rparr>], st1)))"

definition getFunctions :: "SourceFile \<Rightarrow> ScannerState \<Rightarrow> FunctionInfo list \<times> ScannerState" where
  "getFunctions sourceFile st =
     (let (declared, st1) = mapState scanFunction (sf_functions sourceFile) st;
          (bound, st2) = mapState scanVariable (sf_variables sourceFile) st1
      in (declared @ concat bound, st2))"

definition getExports :: "SourceFile \<Rightarrow> string list" where
  "getExports sourceFile =
     sf_namedExports sourceFile
     @ map (\<lambda>cls. orAnonymous (cd_name cls)) (filter cd_exported (sf_classes sourceFile))
     @ map (\<lambda>fn. orAnonymous (fd_name fn)) (filter fd_exported (sf_functions sourceFile))"

definition scanFile :: "SourceFile \<Rightarrow> ScannerState \<Rightarrow> FileInfo \<times> ScannerState" where
  "scanFile sourceFile st =
     (let (classes, st1) = getClasses sourceFile st;
          (functions, st2) = getFunctions sourceFile st1
      in (\<lparr> file_path = sf_path sourceFile, file_relativePath = sf_relativePath sourceFile,
            file_imports = sf_imports sourceFile, file_exports = getExports sourceFile,
            file_classes = classes, file_functions = functions,
            file_templateBindings = None \<rparr>, st2))"

subsection \<open>Template bindings\<close>

definition scanAngularTemplate :: "SourceFile \<Rightarrow> TemplateBinding list" where
  "scanAngularTemplate sourceFile =
     concat (map (\<lambda>cls. case cd_component cls of None \<Rightarrow> [] | Some bindings \<Rightarrow> bindings)
                 (sf_classes sourceFile))"

definition addTemplateBinding :: "string \<Rightarrow> string \<Rightarrow> TemplateBinding \<Rightarrow> jsset jsmap \<Rightarrow> jsset jsmap" where
  "addTemplateBinding className relativePath binding g =
     (case methodMatch (binding_expression binding) of
        None \<Rightarrow> g
      | Some name \<Rightarrow> addEdge (className @ ''.'' @ name) (''template:'' @ relativePath) g)"

definition addTemplateBindingsToCallGraph ::
  "FileInfo \<Rightarrow> TemplateBinding list \<Rightarrow> ScannerState \<Rightarrow> ScannerState" where
  "addTemplateBindingsToCallGraph fileInfo bindings st =
     (case file_classes fileInfo of
        [] \<Rightarrow> st
      | cls # _ \<Rightarrow>
          if class_name cls = [] then st
          else st\<lparr>reverseCallGraph :=
                   fold (addTemplateBinding (class_name cls) (file_relativePath fileInfo))
                        bindings (reverseCallGraph st)\<rparr>)"

text \<open>The body of the loop over the source files in \<^verbatim>\<open>scan\<close>.\<close>

definition scanSourceFile :: "Framework \<Rightarrow> SourceFile \<Rightarrow> ScannerState \<Rightarrow> FileInfo \<times> ScannerState" where
  "scanSourceFile framework sourceFile st =
     (let (fileInfo, st1) = scanFile sourceFile st
      in if framework = Angular
         then let templateBindings = scanAngularTemplate sourceFile
              in if length templateBindings > 0
                 then (fileInfo\<lparr>file_templateBindings := Some templateBindings\<rparr>,
                       addTemplateBindingsToCallGraph fileInfo templateBindings st1)
                 else (fileInfo, st1)
         else (fileInfo, st1))"

subsection \<open>Pass 2: resolveCrossFileCalls\<close>

definition fullNameOf :: "string \<Rightarrow> string \<Rightarrow> string" where
  "fullNameOf owner member = owner @ ''.'' @ member"

text \<open>The three rules of the class branch, each assigning \<^verbatim>\<open>resolvedCall\<close> in turn.\<close>

definition simpleRule :: "ScannerState \<Rightarrow> string jsmap \<Rightarrow> string \<Rightarrow> string option \<Rightarrow> string option" where
  "simpleRule st injections call resolvedCall =
     (case simpleMatch call of
        None \<Rightarrow> resolvedCall
      | Some (propName, methodName) \<Rightarrow>
          (case truthy (mapGet injections propName) of
             None \<Rightarrow> resolvedCall
           | Some serviceClass \<Rightarrow>
               (case mapGet (nestedInjectionMap st) serviceClass of
                  None \<Rightarrow> Some (fullNameOf serviceClass methodName)
                | Some nestedProps \<Rightarrow>
                    if mapHas nestedProps methodName then resolvedCall
                    else Some (fullNameOf serviceClass methodName))))"

definition nestedRule :: "ScannerState \<Rightarrow> string jsmap \<Rightarrow> string \<Rightarrow> string option \<Rightarrow> string option" where
  "nestedRule st injections call resolvedCall =
     (case nestedMatch call of
        None \<Rightarrow> resolvedCall
      | Some (propName, nestedProp, methodName) \<Rightarrow>
          (case truthy (mapGet injections propName) of
             None \<Rightarrow> resolvedCall
           | Some serviceClass \<Rightarrow>
               (case mapGet (nestedInjectionMap st) serviceClass of
                  None \<Rightarrow> resolvedCall
                | Some nestedInjections \<Rightarrow>
                    (case truthy (mapGet nestedInjections nestedProp) of
                       None \<Rightarrow> resolvedCall
                     | Some nestedServiceClass \<Rightarrow> Some (fullNameOf nestedServiceClass methodName)))))"

definition injectRule :: "ScannerState \<Rightarrow> string \<Rightarrow> string option \<Rightarrow> string option" where
  "injectRule st call resolvedCall =
     (case injectMatch call of
        None \<Rightarrow> resolvedCall
      | Some (serviceClass, methodName) \<Rightarrow>
          if mapHas (classMethodsMap st) serviceClass
          then Some (fullNameOf serviceClass methodName) else resolvedCall)"

definition resolveMethodCall :: "ScannerState \<Rightarrow> string jsmap \<Rightarrow> string \<Rightarrow> string option" where
  "resolveMethodCall st injections call =
     truthy (injectRule st call (nestedRule st injections call (simpleRule st injections call None)))"

text \<open>The two rules of the function branch; the second is tried only when the first gave nothing.\<close>

definition localVarRule :: "ScannerState \<Rightarrow> string jsmap \<Rightarrow> string \<Rightarrow> string option \<Rightarrow> string option" where
  "localVarRule st localInjections call resolvedCall =
     (if truthy resolvedCall \<noteq> None then resolvedCall
      else case localVarMatch call of
             None \<Rightarrow> resolvedCall
           | Some (varName, methodName) \<Rightarrow>
               (case truthy (mapGet localInjections varName) of
                  None \<Rightarrow> resolvedCall
                | Some serviceClass \<Rightarrow>
                    if mapHas (classMethodsMap st) serviceClass
                    then Some (fullNameOf serviceClass methodName) else resolvedCall))"

definition resolveFunctionCall :: "ScannerState \<Rightarrow> string jsmap \<Rightarrow> string \<Rightarrow> string option" where
  "resolveFunctionCall st localInjections call =
     truthy (localVarRule st localInjections call (injectRule st call None))"

definition addResolved :: "string option \<Rightarrow> string \<Rightarrow> jsset jsmap \<Rightarrow> jsset jsmap" where
  "addResolved resolvedCall caller g =
     (case resolvedCall of None \<Rightarrow> g | Some callee \<Rightarrow> addEdge callee caller g)"

definition orEmpty :: "'v jsmap option \<Rightarrow> 'v jsmap" where
  "orEmpty m = (case m of None \<Rightarrow> [] | Some x \<Rightarrow> x)"

definition resolveMethod :: "ScannerState \<Rightarrow> string \<Rightarrow> MethodInfo \<Rightarrow> jsset jsmap \<Rightarrow> jsset jsmap" where
  "resolveMethod st className method g =
     (let injections = orEmpty (mapGet (injectionMap st) className);
          callerFullName = fullNameOf className (method_name method)
      in fold (\<lambda>call. addResolved (resolveMethodCall st injections call) callerFullName)
              (method_calls method) g)"

definition resolveClass :: "ScannerState \<Rightarrow> ClassInfo \<Rightarrow> jsset jsmap \<Rightarrow> jsset jsmap" where
  "resolveClass st cls g = fold (resolveMethod st (class_name cls)) (class_methods cls) g"

definition resolveFunction :: "ScannerState \<Rightarrow> FunctionInfo \<Rightarrow> jsset jsmap \<Rightarrow> jsset jsmap" where
  "resolveFunction st fn g =
     (let callerFullName = function_name fn;
          localInjections = orEmpty (mapGet (localInjectionMap st) (function_name fn))
      in fold (\<lambda>call. addResolved (resolveFunctionCall st localInjections call)
                                    (''function:'' @ callerFullName))
              (function_calls fn) g)"

definition resolveFile :: "ScannerState \<Rightarrow> FileInfo \<Rightarrow> jsset jsmap \<Rightarrow> jsset jsmap" where
  "resolveFile st fileInfo g =
     fold (resolveFunction st) (file_functions fileInfo)
          (fold (resolveClass st) (file_classes fileInfo) g)"

text \<open>
  The pass reads the injection maps and the class table, which it does not change, and
  adds edges to the reverse graph only.
\<close>

definition resolveCrossFileCalls :: "FileInfo list \<Rightarrow> ScannerState \<Rightarrow> ScannerState" where
  "resolveCrossFileCalls fileInfos st =
     st\<lparr>reverseCallGraph := fold (resolveFile st) fileInfos (reverseCallGraph st)\<rparr>"

subsection \<open>buildCallGraph: the back-fill of calledBy\<close>

definition backfillMethod :: "jsset jsmap \<Rightarrow> string \<Rightarrow> MethodInfo \<Rightarrow> MethodInfo" where
  "backfillMethod g className method =
     (case mapGet g (fullNameOf className (method_name method)) of
        None \<Rightarrow> method
      | Some callers \<Rightarrow> method\<lparr>method_calledBy := callers\<rparr>)"

definition backfillClass :: "jsset jsmap \<Rightarrow> ClassInfo \<Rightarrow> ClassInfo" where
  "backfillClass g cls =
     cls\<lparr>class_methods := map (backfillMethod g (class_name cls)) (class_methods cls)\<rparr>"

definition buildCallGraph :: "FileInfo list \<Rightarrow> ScannerState \<Rightarrow> FileInfo list" where
  "buildCallGraph fileInfos st =
     map (\<lambda>file. file\<lparr>file_classes := map (backfillClass (reverseCallGraph st)) (file_classes file)\<rparr>)
         fileInfos"

definition scanFiles :: "Framework \<Rightarrow> SourceFile list \<Rightarrow> ScannerState \<Rightarrow> FileInfo list \<times> ScannerState" where
  "scanFiles framework sourceFiles st = mapState (scanSourceFile framework) sourceFiles st"

text \<open>
  The model that the analyzers consume: the first half of \<^verbatim>\<open>scan\<close>, from the class
  table to the back-fill, with the state in which the analyzers run.
\<close>

definition scanModel :: "Framework \<Rightarrow> SourceFile list \<Rightarrow> FileInfo list \<times> ScannerState" where
  "scanModel framework sourceFiles =
     (let st1 = collectClassInfo sourceFiles initialState;
          (fileInfos, st2) = scanFiles framework sourceFiles st1;
          st3 = resolveCrossFileCalls fileInfos st2
      in (buildCallGraph fileInfos st3, st3))"

subsection \<open>detectDeadCode\<close>

text \<open>\<^verbatim>\<open>DeadCodeItem\<close> of \<^verbatim>\<open>types.ts\<close>.\<close>

record DeadCodeItem =
  dead_type :: string
  dead_name :: string
  dead_fullName :: string
  dead_file :: string
  dead_line :: nat
  dead_reason :: string

definition lifecycleHooks :: "string list" where
  "lifecycleHooks =
     [''ngOnInit'', ''ngOnDestroy'', ''ngOnChanges'', ''ngDoCheck'',
      ''ngAfterContentInit'', ''ngAfterContentChecked'',
      ''ngAfterViewInit'', ''ngAfterViewChecked'',
      ''constructor'', ''canActivate'', ''canDeactivate'', ''resolve'']"

definition methodItem :: "FileInfo \<Rightarrow> ClassInfo \<Rightarrow> MethodInfo \<Rightarrow> DeadCodeItem" where
  "methodItem file cls method =
     \<lparr> dead_type = ''method'', dead_name = method_name method,
       dead_fullName = fullNameOf (class_name cls) (method_name method),
       dead_file = file_relativePath file, dead_line = method_line method,
       dead_reason = ''No callers found'' \<rparr>"

definition functionItem :: "FileInfo \<Rightarrow> FunctionInfo \<Rightarrow> DeadCodeItem" where
  "functionItem file fn =
     \<lparr> dead_type = ''function'', dead_name = function_name fn,
       dead_fullName = function_name fn,
       dead_file = file_relativePath file, dead_line = function_line fn,
       dead_reason = ''No callers found and not exported'' \<rparr>"

text \<open>The bodies of the two inner loops: what one method, one function pushes.\<close>

definition deadMethodItems :: "FileInfo \<Rightarrow> ClassInfo \<Rightarrow> MethodInfo \<Rightarrow> DeadCodeItem list" where
  "deadMethodItems file cls method =
     (if length (method_calledBy method) = 0
      then if method_name method \<in> set lifecycleHooks then []
           else if startsWith (method_name method) ''_'' \<and> ''private'' \<in> set (method_modifiers method)
                then []
                else [methodItem file cls method]
      else [])"

definition noCallers :: "jsset jsmap \<Rightarrow> string \<Rightarrow> bool" where
  "noCallers g name = (case mapGet g name of None \<Rightarrow> True | Some callers \<Rightarrow> length callers = 0)"

definition deadFunctionItems :: "jsset jsmap \<Rightarrow> FileInfo \<Rightarrow> FunctionInfo \<Rightarrow> DeadCodeItem list" where
  "deadFunctionItems g file fn =
     (if noCallers g (function_name fn)
      then if function_exported fn then [] else [functionItem file fn]
      else [])"

definition deadFileItems :: "jsset jsmap \<Rightarrow> FileInfo \<Rightarrow> DeadCodeItem list" where
  "deadFileItems g file =
     concat (map (\<lambda>cls. concat (map (deadMethodItems file cls) (class_methods cls)))
                 (file_classes file))
     @ concat (map (deadFunctionItems g file) (file_functions file))"

definition detectDeadCode :: "ScannerState \<Rightarrow> FileInfo list \<Rightarrow> DeadCodeItem list" where
  "detectDeadCode st fileInfos = concat (map (deadFileItems (reverseCallGraph st)) fileInfos)"

subsection \<open>Fixtures: a small analysed model\<close>

definition mkMethod :: "string \<Rightarrow> string list \<Rightarrow> string list \<Rightarrow> string list \<Rightarrow> MethodInfo" where
  "mkMethod name modifiers calls calledBy =
     \<lparr> method_name = name, method_line = 1, method_params = [], method_returnType = ''void'',
       method_modifiers = modifiers, method_decorators = [], method_calls = calls,
       method_calledBy = calledBy, method_callChain = None \<rparr>"

definition mkClass :: "string \<Rightarrow> string list \<Rightarrow> MethodInfo list \<Rightarrow> ClassInfo" where
  "mkClass name decorators methods =
     \<lparr> class_name = name, class_line = 1, class_extends = None, class_implements = [],
       class_decorators = decorators, class_methods = methods, class_properties = [] \<rparr>"

definition mkFunction :: "string \<Rightarrow> bool \<Rightarrow> string list \<Rightarrow> FunctionInfo" where
  "mkFunction name exported calls =
     \<lparr> function_name = name, function_line = 1, function_params = [],
       function_returnType = ''void'', function_calls = calls, function_exported = exported \<rparr>"

definition mkFile :: "string \<Rightarrow> ImportInfo list \<Rightarrow> ClassInfo list \<Rightarrow> FunctionInfo list \<Rightarrow> FileInfo" where
  "mkFile relativePath imports classes functions =
     \<lparr> file_path = ''/p/'' @ relativePath, file_relativePath = relativePath,
       file_imports = imports, file_exports = [], file_classes = classes,
       file_functions = functions, file_templateBindings = None \<rparr>"

definition deadDemoClass :: ClassInfo where
  "deadDemoClass =
     mkClass ''Cmp'' []
       [mkMethod ''ngOnInit'' [] [] [], (mkMethod ''unused'' [] [] [])\<lparr>method_line := 12\<rparr>,
        mkMethod ''_hidden'' [''private''] [] [], mkMethod ''used'' [] [] [''Other.run'']]"

definition deadDemoFile :: FileInfo where
  "deadDemoFile =
     mkFile ''cmp.ts'' [] [deadDemoClass]
       [(mkFunction ''helper'' False [])\<lparr>function_line := 30\<rparr>, mkFunction ''api'' True []]"

subsection \<open>Edges of a graph, identifiers\<close>

text \<open>\<open>hasEdge g k v\<close>: the set stored under the key \<open>k\<close> has the member \<open>v\<close>.\<close>

definition hasEdge :: "jsset jsmap \<Rightarrow> string \<Rightarrow> string \<Rightarrow> bool" where
  "hasEdge g k v = (case mapGet g k of None \<Rightarrow> False | Some vs \<Rightarrow> v \<in> set vs)"

definition edges :: "jsset jsmap \<Rightarrow> (string \<times> string) set" where
  "edges g = {(k, v). hasEdge g k v}"

text \<open>An identifier: a non-empty run of word characters.\<close>

definition isIdent :: "string \<Rightarrow> bool" where
  "isIdent w = (w \<noteq> [] \<and> list_all isWordChar w)"

subsection \<open>The edges each pass contributes, read off the extracted model\<close>

text \<open>The raw call texts of a class method, each as a key with the method as caller.\<close>

definition methodRawEdges :: "string \<Rightarrow> MethodInfo \<Rightarrow> (string \<times> string) set" where
  "methodRawEdges className method =
     {(call, fullNameOf className (method_name method)) | call. call \<in> set (method_calls method)}"

definition rawEdges :: "FileInfo list \<Rightarrow> (string \<times> string) set" where
  "rawEdges fileInfos =
     (\<Union>file \<in> set fileInfos. \<Union>cls \<in> set (file_classes file). \<Union>method \<in> set (class_methods cls).
        methodRawEdges (class_name cls) method)"

text \<open>The edges synthesized from the template bindings of a file.\<close>

definition bindingEdges :: "string \<Rightarrow> string \<Rightarrow> TemplateBinding \<Rightarrow> (string \<times> string) set" where
  "bindingEdges className relativePath binding =
     (case methodMatch (binding_expression binding) of
        None \<Rightarrow> {}
      | Some name \<Rightarrow> {(fullNameOf className name, ''template:'' @ relativePath)})"

definition fileTemplateEdges :: "FileInfo \<Rightarrow> (string \<times> string) set" where
  "fileTemplateEdges file =
     (case file_templateBindings file of
        None \<Rightarrow> {}
      | Some bindings \<Rightarrow>
          (case file_classes file of
             [] \<Rightarrow> {}
           | cls # _ \<Rightarrow>
               if class_name cls = [] then {}
               else (\<Union>binding \<in> set bindings.
                       bindingEdges (class_name cls) (file_relativePath file) binding)))"

definition templateEdges :: "FileInfo list \<Rightarrow> (string \<times> string) set" where
  "templateEdges fileInfos = (\<Union>file \<in> set fileInfos. fileTemplateEdges file)"

text \<open>The edges of successful resolution, of the class branch and of the function branch.\<close>

definition methodResolvedEdges :: "ScannerState \<Rightarrow> string \<Rightarrow> MethodInfo \<Rightarrow> (string \<times> string) set" where
  "methodResolvedEdges st className method =
     {(callee, fullNameOf className (method_name method)) | callee call.
        call \<in> set (method_calls method)
        \<and> resolveMethodCall st (orEmpty (mapGet (injectionMap st) className)) call = Some callee}"

definition functionResolvedEdges :: "ScannerState \<Rightarrow> FunctionInfo \<Rightarrow> (string \<times> string) set" where
  "functionResolvedEdges st fn =
     {(callee, ''function:'' @ function_name fn) | callee call.
        call \<in> set (function_calls fn)
        \<and> resolveFunctionCall st (orEmpty (mapGet (localInjectionMap st) (function_name fn))) call
            = Some callee}"

definition fileResolvedEdges :: "ScannerState \<Rightarrow> FileInfo \<Rightarrow> (string \<times> string) set" where
  "fileResolvedEdges st file =
     (\<Union>cls \<in> set (file_classes file). \<Union>method \<in> set (class_methods cls).
        methodResolvedEdges st (class_name cls) method)
     \<union> (\<Union>fn \<in> set (file_functions file). functionResolvedEdges st fn)"

definition resolvedEdges :: "ScannerState \<Rightarrow> FileInfo list \<Rightarrow> (string \<times> string) set" where
  "resolvedEdges st fileInfos = (\<Union>file \<in> set fileInfos. fileResolvedEdges st file)"

text \<open>
  The entries written to the forward graph, in the order of the scan: the methods of
  the classes of a file, then its functions.
\<close>

definition fileForwardEntries :: "FileInfo \<Rightarrow> (string \<times> string list) list" where
  "fileForwardEntries file =
     concat (map (\<lambda>cls. map (\<lambda>method. (fullNameOf (class_name cls) (method_name method),
                                         method_calls method))
                             (class_methods cls))
                 (file_classes file))
     @ map (\<lambda>fn. (function_name fn, function_calls fn)) (file_functions file)"

definition forwardEntries :: "FileInfo list \<Rightarrow> (string \<times> string list) list" where
  "forwardEntries fileInfos = concat (map fileForwardEntries fileInfos)"

subsection \<open>Fixtures: a small project\<close>

definition mkMethodDecl :: "string \<Rightarrow> string list \<Rightarrow> MethodDecl" where
  "mkMethodDecl name callTexts =
     \<lparr> md_name = name, md_line = 1, md_params = [], md_returnType = ''void'',
       md_modifiers = [], md_decorators = [], md_callTexts = callTexts \<rparr>"

definition mkPropertyDecl :: "string \<Rightarrow> string \<Rightarrow> PropertyDecl" where
  "mkPropertyDecl name initializer =
     \<lparr> pd_name = name, pd_line = 1, pd_type = ''any'', pd_modifiers = [], pd_decorators = [],
       pd_initializer = Some initializer \<rparr>"

definition mkClassDecl ::
  "string \<Rightarrow> PropertyDecl list \<Rightarrow> MethodDecl list \<Rightarrow> TemplateBinding list option \<Rightarrow> ClassDecl" where
  "mkClassDecl name properties methods component =
     \<lparr> cd_name = Some name, cd_line = 1, cd_exported = True, cd_extends = None,
       cd_implements = [], cd_decorators = [], cd_methods = methods,
       cd_properties = properties, cd_ctorParams = None, cd_component = component \<rparr>"

definition mkFunctionDecl :: "string \<Rightarrow> bool \<Rightarrow> string list \<Rightarrow> FunctionDecl" where
  "mkFunctionDecl name exported callTexts =
     \<lparr> fd_name = Some name, fd_line = 1, fd_exported = exported,
       fd_body = \<lparr> fb_params = [], fb_returnType = ''void'', fb_callTexts = callTexts,
                   fb_varDecls = [] \<rparr> \<rparr>"

definition mkSourceFile ::
  "string \<Rightarrow> ImportInfo list \<Rightarrow> ClassDecl list \<Rightarrow> FunctionDecl list \<Rightarrow> SourceFile" where
  "mkSourceFile relativePath imports classes functions =
     \<lparr> sf_path = ''/p/'' @ relativePath, sf_relativePath = relativePath, sf_imports = imports,
       sf_namedExports = [], sf_classes = classes, sf_functions = functions, sf_variables = [] \<rparr>"

text \<open>
  \<^verbatim>\<open>class A { _b = inject(B); run() { this._b.c.m(); helper(); } }\<close>,
  \<^verbatim>\<open>class B { c = inject(C); }\<close>, \<^verbatim>\<open>class C { m() {} }\<close> and the functions
  \<^verbatim>\<open>function helper() { util(); }\<close>, \<^verbatim>\<open>function util() {}\<close>.
\<close>

definition demoProject :: "SourceFile list" where
  "demoProject =
     [mkSourceFile ''a.ts'' []
        [mkClassDecl ''A'' [mkPropertyDecl ''_b'' ''inject(B)'']
           [mkMethodDecl ''run'' [''this._b.c.m'', ''helper'']] None] [],
      mkSourceFile ''b.ts'' []
        [mkClassDecl ''B'' [mkPropertyDecl ''c'' ''inject(C)''] [] None] [],
      mkSourceFile ''c.ts'' []
        [mkClassDecl ''C'' [] [mkMethodDecl ''m'' []] None]
        [mkFunctionDecl ''helper'' False [''util''], mkFunctionDecl ''util'' False []]]"

definition demoScanned :: "FileInfo list \<times> ScannerState" where
  "demoScanned = scanFiles Angular demoProject (collectClassInfo demoProject initialState)"

text \<open>
  \<^verbatim>\<open>class A { _b = inject(B); run() { this._b.get(inject(Foo).bar).z(); } }\<close>,
  \<^verbatim>\<open>class B { get(x) {} }\<close>, \<^verbatim>\<open>class Foo { bar = 1; }\<close>: the call expressions
  of \<open>run\<close> are the outer call, \<^verbatim>\<open>this._b.get(...)\<close> and \<^verbatim>\<open>inject(Foo)\<close>.
\<close>

definition overrideProject :: "SourceFile list" where
  "overrideProject =
     [mkSourceFile ''a.ts'' []
        [mkClassDecl ''A'' [mkPropertyDecl ''_b'' ''inject(B)'']
           [mkMethodDecl ''run'' [''this._b.get(inject(Foo).bar).z'', ''this._b.get'', ''inject'']] None,
         mkClassDecl ''B'' [] [mkMethodDecl ''get'' []] None,
         mkClassDecl ''Foo'' [] [] None] []]"

definition overrideState :: ScannerState where
  "overrideState = collectClassInfo overrideProject initialState"

abbreviation modelOf :: "Framework \<Rightarrow> SourceFile list \<Rightarrow> FileInfo list" where
  "modelOf framework sourceFiles \<equiv> fst (scanModel framework sourceFiles)"

abbreviation stateOf :: "Framework \<Rightarrow> SourceFile list \<Rightarrow> ScannerState" where
  "stateOf framework sourceFiles \<equiv> snd (scanModel framework sourceFiles)"

text \<open>Two files that each declare \<^verbatim>\<open>function init()\<close>, calling \<open>a\<close> and \<open>b\<close>.\<close>

definition shadowProject :: "SourceFile list" where
  "shadowProject =
     [mkSourceFile ''x.ts'' [] [] [mkFunctionDecl ''init'' False [''a'']],
      mkSourceFile ''y.ts'' [] [] [mkFunctionDecl ''init'' False [''b'']]]"

text \<open>
  A component file whose first class is not the component:
  \<^verbatim>\<open>class Helper {}\<close>, then \<^verbatim>\<open>@Component({template: `<button (click)="save()">`}) class Cmp { save() {} }\<close>.
\<close>

definition templateProject :: "SourceFile list" where
  "templateProject =
     [mkSourceFile ''cmp.ts'' []
        [mkClassDecl ''Helper'' [] [] None,
         mkClassDecl ''Cmp'' [] [mkMethodDecl ''save'' []]
           (Some [\<lparr> binding_type = Event, binding_expression = ''save()'' \<rparr>])] []]"

subsection \<open>generateSummary\<close>

text \<open>\<^verbatim>\<open>s.includes(p)\<close>\<close>

fun includesText :: "string \<Rightarrow> string \<Rightarrow> bool" where
  "includesText [] p = (p = [])"
| "includesText (c # cs) p = (startsWith (c # cs) p \<or> includesText cs p)"

text \<open>
  \<^verbatim>\<open>xs.sort((a, b) => count(b) - count(a))\<close>: the sort of an array is stable, so the
  result is the stable sort by descending count. \<^verbatim>\<open>.slice(0, 10)\<close> keeps the first ten.
\<close>

definition sortDesc :: "('a \<Rightarrow> nat) \<Rightarrow> 'a list \<Rightarrow> 'a list" where
  "sortDesc count xs = sort_key (\<lambda>x. - int (count x)) xs"

definition ranking :: "('a \<Rightarrow> nat) \<Rightarrow> 'a list \<Rightarrow> 'a list" where
  "ranking count xs = take 10 (sortDesc count xs)"

text \<open>The first pair of loops: the caller count of every method, and a zero for every service class.\<close>

definition methodCallCounts :: "FileInfo list \<Rightarrow> nat jsmap" where
  "methodCallCounts fileInfos =
     fold (\<lambda>file. fold (\<lambda>cls. fold (\<lambda>method.
                 mapSet (fullNameOf (class_name cls) (method_name method))
                        (length (method_calledBy method)))
               (class_methods cls))
             (file_classes file))
          fileInfos []"

definition isServiceClass :: "ClassInfo \<Rightarrow> bool" where
  "isServiceClass cls =
     list_ex (\<lambda>d. includesText d ''Injectable'' \<or> includesText d ''Service'') (class_decorators cls)"

definition serviceClasses :: "FileInfo list \<Rightarrow> nat jsmap" where
  "serviceClasses fileInfos =
     fold (\<lambda>file. fold (\<lambda>cls counts. if isServiceClass cls then mapSet (class_name cls) 0 counts
                                       else counts)
                        (file_classes file))
          fileInfos []"

text \<open>The second pair of loops: one use per call text whose property resolves to a service class.\<close>

definition countServiceUse :: "ScannerState \<Rightarrow> string \<Rightarrow> string \<Rightarrow> nat jsmap \<Rightarrow> nat jsmap" where
  "countServiceUse st className call counts =
     (case serviceMatch call of
        None \<Rightarrow> counts
      | Some propName \<Rightarrow>
          (case mapGet (injectionMap st) className of
             None \<Rightarrow> counts
           | Some injections \<Rightarrow>
               (case truthy (mapGet injections propName) of
                  None \<Rightarrow> counts
                | Some serviceName \<Rightarrow>
                    if mapHas counts serviceName
                    then mapSet serviceName
                           ((case mapGet counts serviceName of Some n \<Rightarrow> n | None \<Rightarrow> 0) + 1) counts
                    else counts)))"

definition serviceUsageCounts :: "ScannerState \<Rightarrow> FileInfo list \<Rightarrow> nat jsmap" where
  "serviceUsageCounts st fileInfos =
     fold (\<lambda>file. fold (\<lambda>cls. fold (\<lambda>method. fold (countServiceUse st (class_name cls))
                                                      (method_calls method))
                                    (class_methods cls))
                        (file_classes file))
          fileInfos (serviceClasses fileInfos)"

definition classSizes :: "FileInfo list \<Rightarrow> (string \<times> nat \<times> string) list" where
  "classSizes fileInfos =
     concat (map (\<lambda>f. map (\<lambda>c. (class_name c, length (class_methods c), file_relativePath f))
                           (file_classes f))
                 fileInfos)"

definition importCounts :: "FileInfo list \<Rightarrow> (string \<times> nat) list" where
  "importCounts fileInfos = map (\<lambda>f. (file_relativePath f, length (file_imports f))) fileInfos"

text \<open>
  The entries are \<open>(name, callerCount)\<close>, \<open>(name, usageCount)\<close>,
  \<open>(name, methodCount, file)\<close> and \<open>(file, importCount)\<close>.
\<close>

text \<open>\<^verbatim>\<open>SummaryStats\<close> of \<^verbatim>\<open>types.ts\<close>.\<close>

record SummaryStats =
  mostCalledMethods :: "(string \<times> nat) list"
  mostUsedServices :: "(string \<times> nat) list"
  largestClasses :: "(string \<times> nat \<times> string) list"
  filesByImports :: "(string \<times> nat) list"

definition generateSummary :: "ScannerState \<Rightarrow> FileInfo list \<Rightarrow> SummaryStats" where
  "generateSummary st fileInfos =
     \<lparr> mostCalledMethods = ranking snd (filter (\<lambda>e. snd e > 0) (methodCallCounts fileInfos)),
       mostUsedServices = ranking snd (filter (\<lambda>e. snd e > 0) (serviceUsageCounts st fileInfos)),
       largestClasses = ranking (\<lambda>e. fst (snd e)) (classSizes fileInfos),
       filesByImports = ranking snd (importCounts fileInfos) \<rparr>"

definition emptyClassProject :: "SourceFile list" where
  "emptyClassProject = [mkSourceFile ''e.ts'' [] [mkClassDecl ''Empty'' [] [] None] []]"

subsection \<open>detectCircularDependencies\<close>

text \<open>\<^verbatim>\<open>s.substring(0, s.lastIndexOf('/'))\<close>: empty when there is no slash.\<close>

definition dirName :: "string \<Rightarrow> string" where
  "dirName s =
     (if CHR ''/'' \<in> set s then rev (tl (dropWhile (\<lambda>c. c \<noteq> CHR ''/'') (rev s))) else [])"

text \<open>\<^verbatim>\<open>s.split(c)\<close>\<close>

function splitOn :: "char \<Rightarrow> string \<Rightarrow> string list" where
  "splitOn c s =
     (case dropWhile (\<lambda>d. d \<noteq> c) s of
        [] \<Rightarrow> [s]
      | _ # rest \<Rightarrow> takeWhile (\<lambda>d. d \<noteq> c) s # splitOn c rest)"
  by pat_completeness auto
termination
proof (relation "measure (\<lambda>(c, s). length s)")
  show "wf (measure (\<lambda>(c, s). length s))" by simp
next
  fix c :: char and s :: string and x21 x22
  assume "dropWhile (\<lambda>d. d \<noteq> c) s = x21 # x22"
  then have "length (x21 # x22) \<le> length s"
    by (metis length_dropWhile_le)
  then show "((c, x22), (c, s)) \<in> measure (\<lambda>(c, s). length s)" by simp
qed

text \<open>\<^verbatim>\<open>s.replace(p, r)\<close> for a string pattern: the first occurrence only.\<close>

fun replaceFirst :: "string \<Rightarrow> string \<Rightarrow> string \<Rightarrow> string" where
  "replaceFirst p r [] = (if p = [] then r else [])"
| "replaceFirst p r (c # cs) =
     (if startsWith (c # cs) p then r @ drop (length p) (c # cs) else c # replaceFirst p r cs)"

definition walkPart :: "string \<Rightarrow> string \<Rightarrow> string" where
  "walkPart part currentPath =
     (if part = ''.'' then currentPath
      else if part = ''..'' then dirName currentPath
      else if currentPath \<noteq> [] then currentPath @ ''/'' @ part else part)"

definition extensions :: "string list" where
  "extensions = [''.ts'', ''.tsx'', ''.js'', ''.jsx'', ''/index.ts'', ''/index.js'']"

definition resolvedExtension :: "string \<Rightarrow> string" where
  "resolvedExtension ext =
     (if startsWith ext ''/'' then ext
      else replaceFirst ''.js'' ''.ts'' (replaceFirst ''.ts'' ''.ts'' ext))"

text \<open>
  \<open>projectPaths\<close> are the paths of the source files of the project, which
  \<^verbatim>\<open>this.project.getSourceFile\<close> searches; a backslash in a path counts as a slash.
\<close>

definition slashes :: "string \<Rightarrow> string" where
  "slashes p = map (\<lambda>c. if c = CHR 0x5C then CHR ''/'' else c) p"

definition resolveImportPath :: "string list \<Rightarrow> string \<Rightarrow> string \<Rightarrow> string option" where
  "resolveImportPath projectPaths fromFile importPath =
     (let fromDir = dirName fromFile;
          parts = splitOn CHR ''/'' importPath;
          currentPath = fold walkPart parts fromDir
      in case find (\<lambda>ext. list_ex (\<lambda>p. endsWith (slashes p) (currentPath @ ext)) projectPaths)
                   extensions of
           Some ext \<Rightarrow> Some (currentPath @ resolvedExtension ext)
         | None \<Rightarrow> if endsWith currentPath ''.ts'' \<or> endsWith currentPath ''.js''
                    then Some currentPath else None)"

definition fileDeps :: "string list \<Rightarrow> FileInfo \<Rightarrow> jsset" where
  "fileDeps projectPaths file =
     fold (\<lambda>imp deps.
             if startsWith (import_module imp) ''.''
             then (case truthy (resolveImportPath projectPaths (file_relativePath file) (import_module imp)) of
                     Some resolved \<Rightarrow> setAdd resolved deps
                   | None \<Rightarrow> deps)
             else deps)
          (file_imports file) []"

definition importGraphOf :: "string list \<Rightarrow> FileInfo list \<Rightarrow> jsset jsmap" where
  "importGraphOf projectPaths fileInfos =
     fold (\<lambda>file. mapSet (file_relativePath file) (fileDeps projectPaths file)) fileInfos []"

text \<open>\<^verbatim>\<open>CircularDependency\<close> of \<^verbatim>\<open>types.ts\<close>.\<close>

record CircularDependency =
  circ_cycle :: "string list"
  circ_description :: string

record DfsState =
  visited :: jsset
  recursionStack :: jsset
  cycles :: "CircularDependency list"

text \<open>\<^verbatim>\<open>xs.join(sep)\<close>\<close>

fun joinWith :: "string \<Rightarrow> string list \<Rightarrow> string" where
  "joinWith sep [] = []"
| "joinWith sep [x] = x"
| "joinWith sep (x # y # ys) = x @ sep @ joinWith sep (y # ys)"

text \<open>\<^verbatim>\<open>[...cycle].sort().join('->')\<close>: the default sort compares code units.\<close>

definition cycleKey :: "string list \<Rightarrow> string" where
  "cycleKey cycle = joinWith ''->'' (sort cycle)"

definition circularEntry :: "string list \<Rightarrow> CircularDependency" where
  "circularEntry cycle =
     \<lparr> circ_cycle = cycle, circ_description = ''Circular: '' @ joinWith '' -> '' cycle \<rparr>"

text \<open>The branch of the loop for a dependency that is on the recursion stack.\<close>

definition recordCycle :: "string list \<Rightarrow> string \<Rightarrow> DfsState \<Rightarrow> DfsState" where
  "recordCycle path dep s =
     (let cycle = (if dep \<in> set path then dropWhile (\<lambda>n. n \<noteq> dep) path else path @ [dep]) @ [dep]
      in if list_ex (\<lambda>c. cycleKey (circ_cycle c) = cycleKey cycle) (cycles s) then s
         else s\<lparr>cycles := cycles s @ [circularEntry cycle]\<rparr>)"

text \<open>
  The recursive closure \<^verbatim>\<open>dfs\<close> and its loop over the dependencies of a node. The
  first argument bounds the depth of the recursion; \<^const>\<open>None\<close> means that the bound
  was too small.
\<close>

fun dfs :: "nat \<Rightarrow> jsset jsmap \<Rightarrow> string \<Rightarrow> string list \<Rightarrow> DfsState \<Rightarrow> DfsState option"
  and dfsDeps :: "nat \<Rightarrow> jsset jsmap \<Rightarrow> string list \<Rightarrow> string list \<Rightarrow> DfsState \<Rightarrow> DfsState option"
where
  "dfs 0 g node path s = None"
| "dfs (Suc n) g node path s =
     (let s1 = s\<lparr>visited := setAdd node (visited s),
                 recursionStack := setAdd node (recursionStack s)\<rparr>
      in case (case mapGet g node of None \<Rightarrow> Some s1 | Some deps \<Rightarrow> dfsDeps n g path deps s1) of
           None \<Rightarrow> None
         | Some s2 \<Rightarrow> Some (s2\<lparr>recursionStack := removeAll node (recursionStack s2)\<rparr>))"
| "dfsDeps n g path [] s = Some s"
| "dfsDeps n g path (dep # deps) s =
     (if dep \<notin> set (visited s)
      then (case dfs n g dep (path @ [dep]) s of
              None \<Rightarrow> None
            | Some s1 \<Rightarrow> dfsDeps n g path deps s1)
      else if dep \<in> set (recursionStack s)
           then dfsDeps n g path deps (recordCycle path dep s)
           else dfsDeps n g path deps s)"

text \<open>The loop over the keys of the import graph.\<close>

fun dfsAll :: "nat \<Rightarrow> jsset jsmap \<Rightarrow> string list \<Rightarrow> DfsState \<Rightarrow> DfsState option" where
  "dfsAll n g [] s = Some s"
| "dfsAll n g (file # files) s =
     (if file \<notin> set (visited s)
      then (case dfs n g file [file] s of None \<Rightarrow> None | Some s1 \<Rightarrow> dfsAll n g files s1)
      else dfsAll n g files s)"

definition importNodes :: "jsset jsmap \<Rightarrow> string list" where
  "importNodes g = map fst g @ concat (map snd g)"

text \<open>
  The recursion of the source is as deep as the longest path of distinct nodes, so one
  more than the number of nodes bounds it.
\<close>

definition detectCircularDependencies :: "string list \<Rightarrow> FileInfo list \<Rightarrow> CircularDependency list option" where
  "detectCircularDependencies projectPaths fileInfos =
     (let importGraph = importGraphOf projectPaths fileInfos
      in map_option cycles
           (dfsAll (Suc (length (importNodes importGraph))) importGraph (map fst importGraph)
              \<lparr> visited = [], recursionStack = [], cycles = [] \<rparr>))"

definition mkImport :: "string \<Rightarrow> ImportInfo" where
  "mkImport m = \<lparr> import_module = m, import_named = [] \<rparr>"

definition cycleFiles :: "FileInfo list" where
  "cycleFiles = [mkFile ''x.ts'' [mkImport ''./y''] [] [], mkFile ''y.ts'' [mkImport ''./x''] [] []]"


text \<open>
  \<^verbatim>\<open>x.ts\<close> imports \<^verbatim>\<open>./y\<close>, \<^verbatim>\<open>y.ts\<close> imports \<^verbatim>\<open>./x\<close> and \<^verbatim>\<open>./z\<close>, and
  \<^verbatim>\<open>z.ts\<close> imports \<^verbatim>\<open>./x\<close>.
\<close>

definition twoCyclesFiles :: "FileInfo list" where
  "twoCyclesFiles =
     [mkFile ''x.ts'' [mkImport ''./y''] [] [],
      mkFile ''y.ts'' [mkImport ''./x'', mkImport ''./z''] [] [],
      mkFile ''z.ts'' [mkImport ''./x''] [] []]"

text \<open>
  \<^verbatim>\<open>x.ts\<close> imports \<^verbatim>\<open>./w\<close> and \<^verbatim>\<open>./y\<close>, \<^verbatim>\<open>w.ts\<close> imports \<^verbatim>\<open>./y\<close>, and
  \<^verbatim>\<open>y.ts\<close> imports \<^verbatim>\<open>./x\<close>.
\<close>

definition detourFiles :: "FileInfo list" where
  "detourFiles =
     [mkFile ''x.ts'' [mkImport ''./w'', mkImport ''./y''] [] [],
      mkFile ''w.ts'' [mkImport ''./y''] [] [],
      mkFile ''y.ts'' [mkImport ''./x''] [] []]"

text \<open>
  \<^verbatim>\<open>x.ts\<close> imports \<^verbatim>\<open>./y\<close> and \<^verbatim>\<open>./z\<close>, \<^verbatim>\<open>y.ts\<close> imports \<^verbatim>\<open>./x\<close>, and
  \<^verbatim>\<open>z.ts\<close> and \<^verbatim>\<open>u.ts\<close> import nothing.
\<close>

definition leafFiles :: "FileInfo list" where
  "leafFiles =
     [mkFile ''x.ts'' [mkImport ''./y'', mkImport ''./z''] [] [],
      mkFile ''y.ts'' [mkImport ''./x''] [] [],
      mkFile ''z.ts'' [] [] [],
      mkFile ''u.ts'' [] [] []]"

text \<open>
  Two files named \<^verbatim>\<open>a.ts\<close> and \<^verbatim>\<open>a.ts->a.ts\<close>: the first imports the second, the
  second imports itself and the first.
\<close>

definition arrowFiles :: "FileInfo list" where
  "arrowFiles =
     [mkFile ''a.ts'' [mkImport ''./a.ts->a''] [] [],
      mkFile ''a.ts->a.ts'' [mkImport ''./a.ts->a'', mkImport ''./a''] [] []]"

text \<open>
  A cycle of the import graph: distinct nodes, each importing the next and the last
  importing the first.
\<close>

definition importCycle :: "jsset jsmap \<Rightarrow> string list \<Rightarrow> bool" where
  "importCycle g c =
     (c \<noteq> [] \<and> distinct c \<and> successively (hasEdge g) c \<and> hasEdge g (last c) (hd c))"

text \<open>What the invariant of the traversal says of a reported entry and of a state.\<close>

definition cycleOf :: "string list \<Rightarrow> CircularDependency \<Rightarrow> bool" where
  "cycleOf vis e = (\<exists>c. c \<noteq> [] \<and> circ_cycle e = c @ [hd c] \<and> subseq c vis)"

definition dfsInv :: "string set \<Rightarrow> DfsState \<Rightarrow> bool" where
  "dfsInv N s =
     (distinct (visited s) \<and> set (visited s) \<subseteq> N
      \<and> (\<forall>e \<in> set (cycles s). cycleOf (visited s) e)
      \<and> distinct (map (\<lambda>e. cycleKey (circ_cycle e)) (cycles s)))"

text \<open>
  A node is finished when it was visited and has left the recursion stack. The key of
  a cycle is recorded when an entry of the state has that key. The second invariant
  of the traversal: every entry closes a cycle of the import graph, and once a node
  that imports and is imported by another node is finished, the key of a cycle through
  the two nodes is recorded.
\<close>

definition finishedNode :: "DfsState \<Rightarrow> string \<Rightarrow> bool" where
  "finishedNode s n = (n \<in> set (visited s) \<and> n \<notin> set (recursionStack s))"

definition keyRecorded :: "DfsState \<Rightarrow> string list \<Rightarrow> bool" where
  "keyRecorded s c = (\<exists>e \<in> set (cycles s). cycleKey (circ_cycle e) = cycleKey c)"

definition edgeInv :: "string set \<Rightarrow> jsset jsmap \<Rightarrow> DfsState \<Rightarrow> bool" where
  "edgeInv N g s =
     ((\<forall>e \<in> set (cycles s). importCycle g (butlast (circ_cycle e)))
      \<and> (\<forall>a b. hasEdge g a b \<longrightarrow> hasEdge g b a \<longrightarrow> finishedNode s a \<longrightarrow>
            (\<exists>c. c \<noteq> [] \<and> a \<in> set c \<and> b \<in> set c \<and> set c \<subseteq> N \<and> keyRecorded s c)))"

subsection \<open>buildCallChains\<close>

text \<open>
  \<^verbatim>\<open>getCallChain\<close>: the depth is the first argument. The set \<open>visited\<close> is extended by
  the method and every recursive call receives a copy of the extended set.
\<close>

fun getCallChain :: "jsset jsmap \<Rightarrow> nat \<Rightarrow> string \<Rightarrow> jsset \<Rightarrow> string list list" where
  "getCallChain g 0 methodName visitedSet = []"
| "getCallChain g (Suc depth) methodName visitedSet =
     (if methodName \<in> set visitedSet then []
      else let visited1 = setAdd methodName visitedSet
           in case mapGet g methodName of
                None \<Rightarrow> [[methodName]]
              | Some callers \<Rightarrow>
                  if length callers = 0 then [[methodName]]
                  else concat (map (\<lambda>caller.
                         if startsWith caller ''template:'' then [[caller, methodName]]
                         else let parentChains = getCallChain g depth caller visited1
                              in if length parentChains = 0 then [[caller, methodName]]
                                 else map (\<lambda>chain. chain @ [methodName]) parentChains)
                       callers))"

definition chainMethod :: "ScannerState \<Rightarrow> nat \<Rightarrow> string \<Rightarrow> MethodInfo \<Rightarrow> MethodInfo" where
  "chainMethod st maxDepth className method =
     (if length (method_calledBy method) > 0
      then let chains = getCallChain (reverseCallGraph st) maxDepth
                          (fullNameOf className (method_name method)) []
           in if length chains > 0 \<and> list_ex (\<lambda>c. length c > 1) chains
              then method\<lparr>method_callChain := Some (take 5 (filter (\<lambda>c. length c > 1) chains))\<rparr>
              else method
      else method)"

definition buildCallChains :: "ScannerState \<Rightarrow> FileInfo list \<Rightarrow> nat \<Rightarrow> FileInfo list" where
  "buildCallChains st fileInfos maxDepth =
     map (\<lambda>file. file\<lparr>file_classes :=
            map (\<lambda>cls. cls\<lparr>class_methods :=
                   map (chainMethod st maxDepth (class_name cls)) (class_methods cls)\<rparr>)
                (file_classes file)\<rparr>)
         fileInfos"

subsection \<open>analyzeInheritance\<close>

text \<open>\<^verbatim>\<open>InheritanceInfo\<close> of \<^verbatim>\<open>types.ts\<close>.\<close>

record InheritanceInfo =
  inh_className :: string
  inh_extends :: string
  inh_inheritedMethods :: "string list"
  inh_overriddenMethods :: "string list"

definition classMethodsCache :: "FileInfo list \<Rightarrow> jsset jsmap" where
  "classMethodsCache fileInfos =
     fold (\<lambda>file. fold (\<lambda>cls. mapSet (class_name cls) (newSet (map method_name (class_methods cls))))
                        (file_classes file))
          fileInfos []"

definition classExtendsCache :: "FileInfo list \<Rightarrow> string option jsmap" where
  "classExtendsCache fileInfos =
     fold (\<lambda>file. fold (\<lambda>cls. mapSet (class_name cls) (class_extends cls)) (file_classes file))
          fileInfos []"

text \<open>
  \<^verbatim>\<open>getAllAncestorMethods\<close>. A call recurses only for a class with an entry in
  the cache, into a parent that was not visited; the set \<open>visited\<close> is shared along
  the one chain of calls.
\<close>

function getAllAncestorMethods ::
  "jsset jsmap \<Rightarrow> string option jsmap \<Rightarrow> string \<Rightarrow> jsset \<Rightarrow> jsset" where
  "getAllAncestorMethods methodsCache extendsCache className visitedSet =
     (case mapGet extendsCache className of
        None \<Rightarrow> []
      | Some parent \<Rightarrow>
          (case truthy parent of
             None \<Rightarrow> []
           | Some parentName \<Rightarrow>
               if parentName \<in> set visitedSet then []
               else let parentMethods = (case mapGet methodsCache parentName of
                                           None \<Rightarrow> [] | Some ms \<Rightarrow> fold setAdd ms []);
                        grandparentMethods =
                          getAllAncestorMethods methodsCache extendsCache parentName
                            (setAdd parentName visitedSet)
                    in fold setAdd grandparentMethods parentMethods))"
  by pat_completeness auto
termination
proof (relation "measure (\<lambda>(mc, ec, className, visitedSet).
          2 * card (fst ` set ec - set visitedSet) + (if className \<in> fst ` set ec then 1 else 0))")
  show "wf (measure (\<lambda>(mc, ec, className, visitedSet).
          2 * card (fst ` set ec - set visitedSet) + (if className \<in> fst ` set ec then 1 else 0)))"
    by simp
next
  fix methodsCache :: "jsset jsmap" and extendsCache :: "string option jsmap"
    and className :: string and visitedSet :: jsset and parent parentName
  assume a: "mapGet extendsCache className = Some parent" "truthy parent = Some parentName"
    "parentName \<notin> set visitedSet"
  from a(1) have k: "className \<in> fst ` set extendsCache"
    by (auto simp: mapGet_def dest!: map_of_SomeD intro: rev_image_eqI)
  have v: "set (setAdd parentName visitedSet) = insert parentName (set visitedSet)"
    by (auto simp: setAdd_def)
  show "((methodsCache, extendsCache, parentName, setAdd parentName visitedSet),
         (methodsCache, extendsCache, className, visitedSet))
        \<in> measure (\<lambda>(mc, ec, className, visitedSet).
          2 * card (fst ` set ec - set visitedSet) + (if className \<in> fst ` set ec then 1 else 0))"
  proof (cases "parentName \<in> fst ` set extendsCache")
    case True
    with a(3) have "card (fst ` set extendsCache - insert parentName (set visitedSet))
                    < card (fst ` set extendsCache - set visitedSet)"
      by (intro psubset_card_mono) auto
    with k True show ?thesis by (simp add: v)
  next
    case False
    then have "fst ` set extendsCache - insert parentName (set visitedSet)
               = fst ` set extendsCache - set visitedSet"
      by auto
    with k False show ?thesis by (simp add: v)
  qed
qed

definition inheritanceOf ::
  "jsset jsmap \<Rightarrow> string option jsmap \<Rightarrow> ClassInfo \<Rightarrow> InheritanceInfo list" where
  "inheritanceOf methodsCache extendsCache cls =
     (case truthy (class_extends cls) of
        None \<Rightarrow> []
      | Some parent \<Rightarrow>
          let allAncestorMethods = getAllAncestorMethods methodsCache extendsCache (class_name cls) []
          in if length allAncestorMethods > 0
             then let childMethods = newSet (map method_name (class_methods cls))
                  in [\<lparr> inh_className = class_name cls, inh_extends = parent,
                        inh_inheritedMethods = filter (\<lambda>m. m \<notin> set childMethods) allAncestorMethods,
                        inh_overriddenMethods = filter (\<lambda>m. m \<in> set childMethods) allAncestorMethods \<rparr>]
             else [])"

definition analyzeInheritance :: "FileInfo list \<Rightarrow> InheritanceInfo list" where
  "analyzeInheritance fileInfos =
     concat (map (\<lambda>file. concat (map (inheritanceOf (classMethodsCache fileInfos)
                                                     (classExtendsCache fileInfos))
                                      (file_classes file)))
                 fileInfos)"


subsection \<open>analyzeInterfaceImplementations\<close>

text \<open>\<^verbatim>\<open>InterfaceImplementation\<close> of \<^verbatim>\<open>types.ts\<close>.\<close>

record InterfaceImplementation =
  iface_interfaceName :: string
  iface_implementedBy :: "string list"

text \<open>
  \<^verbatim>\<open>iface.replace(/<.*>/, '')\<close>: the first \<^verbatim>\<open><\<close> that has a \<^verbatim>\<open>>\<close> later on its line
  is removed together with everything up to the last \<^verbatim>\<open>>\<close> of that line.
\<close>

definition isLineTerminator :: "char \<Rightarrow> bool" where
  "isLineTerminator c = ((of_char c :: nat) \<in> {10, 13})"

fun removeGeneric :: "string \<Rightarrow> string" where
  "removeGeneric [] = []"
| "removeGeneric (c # cs) =
     (let line = takeWhile (\<lambda>d. \<not> isLineTerminator d) cs
      in if c = CHR ''<'' \<and> CHR ''>'' \<in> set line
         then drop (length line - length (takeWhile (\<lambda>d. d \<noteq> CHR ''>'') (rev line))) cs
         else c # removeGeneric cs)"

definition interfaceMap :: "FileInfo list \<Rightarrow> jsset jsmap" where
  "interfaceMap fileInfos =
     fold (\<lambda>file. fold (\<lambda>cls. fold (\<lambda>iface. addEdge (trim (removeGeneric iface)) (class_name cls))
                                    (class_implements cls))
                        (file_classes file))
          fileInfos []"

definition analyzeInterfaceImplementations :: "FileInfo list \<Rightarrow> InterfaceImplementation list" where
  "analyzeInterfaceImplementations fileInfos =
     sortDesc (\<lambda>e. length (iface_implementedBy e))
       (map (\<lambda>(interfaceName, implementors).
               \<lparr> iface_interfaceName = interfaceName, iface_implementedBy = implementors \<rparr>)
            (interfaceMap fileInfos))"

subsection \<open>scan\<close>

text \<open>
  \<^verbatim>\<open>ScanOutput\<close> of \<^verbatim>\<open>types.ts\<close> with the counts of its \<^verbatim>\<open>meta\<close>, without the tree
  of paths and the time stamp. The call graph is a plain object: the list of its own
  properties in the order of their enumeration.
\<close>

record ScanOutput =
  out_fileCount :: nat
  out_classCount :: nat
  out_functionCount :: nat
  out_files :: "FileInfo list"
  out_callGraph :: "(string \<times> string list) list"
  out_deadCode :: "DeadCodeItem list"
  out_inheritance :: "InheritanceInfo list"
  out_circularDependencies :: "CircularDependency list"
  out_summary :: SummaryStats
  out_interfaceImplementations :: "InterfaceImplementation list"

text \<open>
  \<^verbatim>\<open>this.callGraph.forEach((calls, caller) => (result[caller] = [...calls]))\<close> on the
  plain object \<^verbatim>\<open>result\<close>. The assignment under the key \<^verbatim>\<open>__proto__\<close> replaces the
  prototype of \<^verbatim>\<open>result\<close> by the array and adds no property. A key that is an array
  index (the decimal numeral of a number below \<^verbatim>\<open>2^32 - 1\<close>, without a leading zero)
  is enumerated before every other key, the indices in ascending order; the other keys
  follow in the order of their insertion.
\<close>

definition isDigit :: "char \<Rightarrow> bool" where
  "isDigit c = (48 \<le> (of_char c :: nat) \<and> (of_char c :: nat) \<le> 57)"

definition decimalValue :: "string \<Rightarrow> nat" where
  "decimalValue s = foldl (\<lambda>n c. 10 * n + ((of_char c :: nat) - 48)) 0 s"

definition isArrayIndex :: "string \<Rightarrow> bool" where
  "isArrayIndex s =
     (s \<noteq> [] \<and> list_all isDigit s \<and> (s = ''0'' \<or> hd s \<noteq> CHR ''0'')
      \<and> decimalValue s < 2 ^ 32 - 1)"

definition serializeCallGraph :: "ScannerState \<Rightarrow> (string \<times> string list) list" where
  "serializeCallGraph st =
     (let properties = filter (\<lambda>(caller, calls). caller \<noteq> ''__proto__'') (callGraph st)
      in sort_key (\<lambda>(caller, calls). decimalValue caller)
           (filter (\<lambda>(caller, calls). isArrayIndex caller) properties)
         @ filter (\<lambda>(caller, calls). \<not> isArrayIndex caller) properties)"

text \<open>
  The calls that \<^verbatim>\<open>scan\<close> makes after cross-file resolution. Each of them runs on the
  scanner, whose maps it can write, and on the array \<^verbatim>\<open>fileInfos\<close>, whose objects it
  can assign to. A call is modelled by the value it returns together with the maps and
  the model it leaves behind.
\<close>

record ScannerRun =
  run_state :: ScannerState
  run_fileInfos :: "FileInfo list"

definition buildCallGraphPass :: "ScannerRun \<Rightarrow> ScannerRun" where
  "buildCallGraphPass r = r\<lparr>run_fileInfos := buildCallGraph (run_fileInfos r) (run_state r)\<rparr>"

definition detectDeadCodePass :: "ScannerRun \<Rightarrow> DeadCodeItem list \<times> ScannerRun" where
  "detectDeadCodePass r = (detectDeadCode (run_state r) (run_fileInfos r), r)"

definition analyzeInheritancePass :: "ScannerRun \<Rightarrow> InheritanceInfo list \<times> ScannerRun" where
  "analyzeInheritancePass r = (analyzeInheritance (run_fileInfos r), r)"

definition detectCircularDependenciesPass ::
  "string list \<Rightarrow> ScannerRun \<Rightarrow> CircularDependency list option \<times> ScannerRun" where
  "detectCircularDependenciesPass projectPaths r =
     (detectCircularDependencies projectPaths (run_fileInfos r), r)"

definition generateSummaryPass :: "ScannerRun \<Rightarrow> SummaryStats \<times> ScannerRun" where
  "generateSummaryPass r = (generateSummary (run_state r) (run_fileInfos r), r)"

definition analyzeInterfaceImplementationsPass ::
  "ScannerRun \<Rightarrow> InterfaceImplementation list \<times> ScannerRun" where
  "analyzeInterfaceImplementationsPass r = (analyzeInterfaceImplementations (run_fileInfos r), r)"

definition buildCallChainsPass :: "nat \<Rightarrow> ScannerRun \<Rightarrow> ScannerRun" where
  "buildCallChainsPass maxDepth r =
     r\<lparr>run_fileInfos := buildCallChains (run_state r) (run_fileInfos r) maxDepth\<rparr>"

text \<open>
  \<^verbatim>\<open>scan\<close>, with the scanner and the model as they are when it returns. The result is
  \<^const>\<open>None\<close> when the traversal of the import graph exceeds its bound.
\<close>

definition scanRun :: "Framework \<Rightarrow> SourceFile list \<Rightarrow> (ScanOutput \<times> ScannerRun) option" where
  "scanRun framework sourceFiles =
     (let st1 = collectClassInfo sourceFiles initialState;
          (fileInfos, st2) = scanFiles framework sourceFiles st1;
          st3 = resolveCrossFileCalls fileInfos st2;
          r0 = buildCallGraphPass \<lparr> run_state = st3, run_fileInfos = fileInfos \<rparr>;
          classCount = sum_list (map (\<lambda>f. length (file_classes f)) (run_fileInfos r0));
          functionCount = sum_list (map (\<lambda>f. length (file_functions f)) (run_fileInfos r0));
          (deadCode, r1) = detectDeadCodePass r0;
          (inheritance, r2) = analyzeInheritancePass r1;
          (circular, r3) = detectCircularDependenciesPass (map sf_path sourceFiles) r2
      in case circular of
           None \<Rightarrow> None
         | Some circularDependencies \<Rightarrow>
             let (summary, r4) = generateSummaryPass r3;
                 (interfaceImplementations, r5) = analyzeInterfaceImplementationsPass r4;
                 r6 = buildCallChainsPass 3 r5
             in Some (\<lparr> out_fileCount = length sourceFiles, out_classCount = classCount,
                        out_functionCount = functionCount, out_files = run_fileInfos r6,
                        out_callGraph = serializeCallGraph (run_state r6),
                        out_deadCode = deadCode, out_inheritance = inheritance,
                        out_circularDependencies = circularDependencies,
                        out_summary = summary,
                        out_interfaceImplementations = interfaceImplementations \<rparr>, r6))"

definition scan :: "Framework \<Rightarrow> SourceFile list \<Rightarrow> ScanOutput option" where
  "scan framework sourceFiles = map_option fst (scanRun framework sourceFiles)"



text \<open>
  A project whose first function is named \<^verbatim>\<open>__proto__\<close> and whose class has a method
  that calls it.
\<close>

definition protoProject :: "SourceFile list" where
  "protoProject =
     [mkSourceFile ''p.ts'' []
        [mkClassDecl ''P'' [] [mkMethodDecl ''run'' [''__proto__'']] None]
        [mkFunctionDecl ''__proto__'' False [''helper''], mkFunctionDecl ''helper'' False []]]"

section \<open>Properties\<close>

subsection \<open>Dead code\<close>

lemma dead_item_cases:
  "item \<in> set (detectDeadCode st fileInfos) \<longleftrightarrow>
     (\<exists>file \<in> set fileInfos.
        (\<exists>cls \<in> set (file_classes file). \<exists>method \<in> set (class_methods cls).
            item \<in> set (deadMethodItems file cls method))
        \<or> (\<exists>fn \<in> set (file_functions file).
            item \<in> set (deadFunctionItems (reverseCallGraph st) file fn)))"
  by (auto simp: detectDeadCode_def deadFileItems_def)

lemma dead_method_item:
  "item \<in> set (deadMethodItems file cls method) \<longleftrightarrow>
     method_calledBy method = [] \<and> method_name method \<notin> set lifecycleHooks
     \<and> \<not> (''private'' \<in> set (method_modifiers method) \<and> startsWith (method_name method) ''_'')
     \<and> item = methodItem file cls method"
  by (auto simp: deadMethodItems_def)

lemma dead_function_item:
  "item \<in> set (deadFunctionItems g file fn) \<longleftrightarrow>
     noCallers g (function_name fn) \<and> \<not> function_exported fn \<and> item = functionItem file fn"
  by (auto simp: deadFunctionItems_def)

lemma dead_type_methodItem [simp]: "dead_type (methodItem file cls method) = ''method''"
  by (simp add: methodItem_def)

lemma dead_type_functionItem [simp]: "dead_type (functionItem file fn) = ''function''"
  by (simp add: functionItem_def)

text \<open>
  C4. A method is reported (an item of type \<open>method\<close> is in the report) exactly when
  its calledBy list is empty, its name is not a lifecycle hook, and it is not both
  private and prefixed with an underscore. The item holds the name of the method, the
  name qualified by its class, the relative path of its file, its line and the reason
  \<open>No callers found\<close>. No reported method is named \<open>ngOnInit\<close>; the lifecycle hooks
  are the twelve names listed.
\<close>

theorem dead_method_reported:
  "((item \<in> set (detectDeadCode st fileInfos) \<and> dead_type item = ''method'') \<longleftrightarrow>
      (\<exists>file cls method. file \<in> set fileInfos \<and> cls \<in> set (file_classes file)
          \<and> method \<in> set (class_methods cls)
          \<and> method_calledBy method = []
          \<and> method_name method \<notin> set lifecycleHooks
          \<and> \<not> (''private'' \<in> set (method_modifiers method)
                \<and> (\<exists>rest. method_name method = ''_'' @ rest))
          \<and> item = \<lparr> dead_type = ''method'', dead_name = method_name method,
                      dead_fullName = class_name cls @ ''.'' @ method_name method,
                      dead_file = file_relativePath file, dead_line = method_line method,
                      dead_reason = ''No callers found'' \<rparr>))
   \<and> (item \<in> set (detectDeadCode st fileInfos) \<and> dead_type item = ''method''
        \<longrightarrow> dead_name item \<noteq> ''ngOnInit'' \<and> dead_reason item = ''No callers found'')
   \<and> set lifecycleHooks =
        {''ngOnInit'', ''ngOnDestroy'', ''ngOnChanges'', ''ngDoCheck'', ''ngAfterContentInit'',
         ''ngAfterContentChecked'', ''ngAfterViewInit'', ''ngAfterViewChecked'', ''constructor'',
         ''canActivate'', ''canDeactivate'', ''resolve''}"
proof -
  have sw: "startsWith s ''_'' \<longleftrightarrow> (\<exists>rest. s = ''_'' @ rest)" for s
    by (cases s) (auto simp: startsWith_def)
  have "(item \<in> set (detectDeadCode st fileInfos) \<and> dead_type item = ''method'') \<longleftrightarrow>
      (\<exists>file cls method. file \<in> set fileInfos \<and> cls \<in> set (file_classes file)
          \<and> method \<in> set (class_methods cls)
          \<and> method_calledBy method = []
          \<and> method_name method \<notin> set lifecycleHooks
          \<and> \<not> (''private'' \<in> set (method_modifiers method) \<and> startsWith (method_name method) ''_'')
          \<and> item = methodItem file cls method)"
    unfolding dead_item_cases dead_method_item dead_function_item by auto
  then have iff: "(item \<in> set (detectDeadCode st fileInfos) \<and> dead_type item = ''method'') \<longleftrightarrow>
      (\<exists>file cls method. file \<in> set fileInfos \<and> cls \<in> set (file_classes file)
          \<and> method \<in> set (class_methods cls)
          \<and> method_calledBy method = []
          \<and> method_name method \<notin> set lifecycleHooks
          \<and> \<not> (''private'' \<in> set (method_modifiers method)
                \<and> (\<exists>rest. method_name method = ''_'' @ rest))
          \<and> item = \<lparr> dead_type = ''method'', dead_name = method_name method,
                      dead_fullName = class_name cls @ ''.'' @ method_name method,
                      dead_file = file_relativePath file, dead_line = method_line method,
                      dead_reason = ''No callers found'' \<rparr>)"
    by (simp only: methodItem_def fullNameOf_def sw)
  have hook: "''ngOnInit'' \<in> set lifecycleHooks"
    by (simp add: lifecycleHooks_def)
  have imp: "item \<in> set (detectDeadCode st fileInfos) \<and> dead_type item = ''method''
        \<longrightarrow> dead_name item \<noteq> ''ngOnInit'' \<and> dead_reason item = ''No callers found''"
  proof
    assume "item \<in> set (detectDeadCode st fileInfos) \<and> dead_type item = ''method''"
    with iff have "\<exists>file cls method. file \<in> set fileInfos \<and> cls \<in> set (file_classes file)
          \<and> method \<in> set (class_methods cls)
          \<and> method_calledBy method = []
          \<and> method_name method \<notin> set lifecycleHooks
          \<and> \<not> (''private'' \<in> set (method_modifiers method)
                \<and> (\<exists>rest. method_name method = ''_'' @ rest))
          \<and> item = \<lparr> dead_type = ''method'', dead_name = method_name method,
                      dead_fullName = class_name cls @ ''.'' @ method_name method,
                      dead_file = file_relativePath file, dead_line = method_line method,
                      dead_reason = ''No callers found'' \<rparr>"
      by (rule iffD1)
    moreover have "dead_name item \<noteq> ''ngOnInit'' \<and> dead_reason item = ''No callers found''"
      if "method_name m \<notin> set lifecycleHooks"
         "item = \<lparr> dead_type = ''method'', dead_name = method_name m,
                      dead_fullName = class_name c @ ''.'' @ method_name m,
                      dead_file = file_relativePath f, dead_line = method_line m,
                      dead_reason = ''No callers found'' \<rparr>" for f c m
      using that hook by auto
    ultimately show "dead_name item \<noteq> ''ngOnInit'' \<and> dead_reason item = ''No callers found''"
      by (elim exE conjE)
  qed
  have hooks: "set lifecycleHooks =
        {''ngOnInit'', ''ngOnDestroy'', ''ngOnChanges'', ''ngDoCheck'', ''ngAfterContentInit'',
         ''ngAfterContentChecked'', ''ngAfterViewInit'', ''ngAfterViewChecked'', ''constructor'',
         ''canActivate'', ''canDeactivate'', ''resolve''}"
    by (simp add: lifecycleHooks_def)
  show ?thesis by (rule conjI [OF iff conjI [OF imp hooks]])
qed

theorem dead_method_reported_witness:
  "\<lparr> dead_type = ''method'', dead_name = ''unused'', dead_fullName = ''Cmp.unused'',
     dead_file = ''cmp.ts'', dead_line = 12, dead_reason = ''No callers found'' \<rparr>
     \<in> set (detectDeadCode initialState [deadDemoFile])
   \<and> map dead_name (detectDeadCode initialState [deadDemoFile]) = [''unused'', ''helper'']"
proof -
  let ?m = "(mkMethod ''unused'' [] [] [])\<lparr>method_line := 12\<rparr>"
  let ?item = "\<lparr> dead_type = ''method'', dead_name = ''unused'', dead_fullName = ''Cmp.unused'',
     dead_file = ''cmp.ts'', dead_line = 12, dead_reason = ''No callers found'' \<rparr>"
  have names: "map dead_name (detectDeadCode initialState [deadDemoFile]) = [''unused'', ''helper'']"
    by code_simp
  have "deadDemoFile \<in> set [deadDemoFile] \<and> deadDemoClass \<in> set (file_classes deadDemoFile)
        \<and> ?m \<in> set (class_methods deadDemoClass) \<and> method_calledBy ?m = []
        \<and> method_name ?m \<notin> set lifecycleHooks
        \<and> \<not> (''private'' \<in> set (method_modifiers ?m) \<and> (\<exists>rest. method_name ?m = ''_'' @ rest))
        \<and> ?item = \<lparr> dead_type = ''method'', dead_name = method_name ?m,
                      dead_fullName = class_name deadDemoClass @ ''.'' @ method_name ?m,
                      dead_file = file_relativePath deadDemoFile, dead_line = method_line ?m,
                      dead_reason = ''No callers found'' \<rparr>"
    by (simp add: deadDemoFile_def deadDemoClass_def mkFile_def mkClass_def mkMethod_def
        lifecycleHooks_def)
  then have "\<exists>file cls method. file \<in> set [deadDemoFile] \<and> cls \<in> set (file_classes file)
          \<and> method \<in> set (class_methods cls)
          \<and> method_calledBy method = []
          \<and> method_name method \<notin> set lifecycleHooks
          \<and> \<not> (''private'' \<in> set (method_modifiers method)
                \<and> (\<exists>rest. method_name method = ''_'' @ rest))
          \<and> ?item = \<lparr> dead_type = ''method'', dead_name = method_name method,
                      dead_fullName = class_name cls @ ''.'' @ method_name method,
                      dead_file = file_relativePath file, dead_line = method_line method,
                      dead_reason = ''No callers found'' \<rparr>"
    by (intro exI [of _ deadDemoFile] exI [of _ deadDemoClass] exI [of _ ?m])
  with dead_method_reported [of ?item initialState "[deadDemoFile]", THEN conjunct1]
  have "?item \<in> set (detectDeadCode initialState [deadDemoFile])" by simp
  with names show ?thesis by simp
qed

text \<open>
  C5. A free function with no entry under its name in the reverse graph is reported when
  it is not exported, and pushes nothing when it is exported; two functions that differ
  in the exported flag only differ in exactly this way. The function items of the report
  are those of the non-exported functions without callers; an item holds the name of
  the function twice, the relative path of its file, its line and the reason
  \<open>No callers found and not exported\<close>.
\<close>

theorem dead_function_reported:
  "((item \<in> set (detectDeadCode st fileInfos) \<and> dead_type item = ''function'') \<longleftrightarrow>
      (\<exists>file fn. file \<in> set fileInfos \<and> fn \<in> set (file_functions file)
          \<and> (\<forall>callers. mapGet (reverseCallGraph st) (function_name fn) = Some callers \<longrightarrow> callers = [])
          \<and> \<not> function_exported fn
          \<and> item = \<lparr> dead_type = ''function'', dead_name = function_name fn,
                      dead_fullName = function_name fn, dead_file = file_relativePath file,
                      dead_line = function_line fn,
                      dead_reason = ''No callers found and not exported'' \<rparr>))
   \<and> (file \<in> set fileInfos \<and> fn \<in> set (file_functions file)
        \<and> (\<forall>callers. mapGet (reverseCallGraph st) (function_name fn) = Some callers \<longrightarrow> callers = [])
        \<longrightarrow> (\<not> function_exported fn \<longrightarrow>
               \<lparr> dead_type = ''function'', dead_name = function_name fn,
                 dead_fullName = function_name fn, dead_file = file_relativePath file,
                 dead_line = function_line fn,
                 dead_reason = ''No callers found and not exported'' \<rparr>
               \<in> set (detectDeadCode st fileInfos))
          \<and> (function_exported fn \<longrightarrow> deadFunctionItems (reverseCallGraph st) file fn = [])
          \<and> deadFunctionItems (reverseCallGraph st) file (fn\<lparr>function_exported := False\<rparr>)
              = [\<lparr> dead_type = ''function'', dead_name = function_name fn,
                   dead_fullName = function_name fn, dead_file = file_relativePath file,
                   dead_line = function_line fn,
                   dead_reason = ''No callers found and not exported'' \<rparr>]
          \<and> deadFunctionItems (reverseCallGraph st) file (fn\<lparr>function_exported := True\<rparr>) = [])"
proof -
  have nc: "noCallers g n \<longleftrightarrow> (\<forall>callers. mapGet g n = Some callers \<longrightarrow> callers = [])" for g n
    by (auto simp: noCallers_def split: option.splits)
  have "(item \<in> set (detectDeadCode st fileInfos) \<and> dead_type item = ''function'') \<longleftrightarrow>
      (\<exists>file fn. file \<in> set fileInfos \<and> fn \<in> set (file_functions file)
          \<and> (\<forall>callers. mapGet (reverseCallGraph st) (function_name fn) = Some callers \<longrightarrow> callers = [])
          \<and> \<not> function_exported fn
          \<and> item = functionItem file fn)"
    unfolding dead_item_cases dead_method_item dead_function_item nc by auto
  then have iff: "(item \<in> set (detectDeadCode st fileInfos) \<and> dead_type item = ''function'') \<longleftrightarrow>
      (\<exists>file fn. file \<in> set fileInfos \<and> fn \<in> set (file_functions file)
          \<and> (\<forall>callers. mapGet (reverseCallGraph st) (function_name fn) = Some callers \<longrightarrow> callers = [])
          \<and> \<not> function_exported fn
          \<and> item = \<lparr> dead_type = ''function'', dead_name = function_name fn,
                      dead_fullName = function_name fn, dead_file = file_relativePath file,
                      dead_line = function_line fn,
                      dead_reason = ''No callers found and not exported'' \<rparr>)"
    by (simp only: functionItem_def)
  have per: "file \<in> set fileInfos \<and> fn \<in> set (file_functions file)
        \<and> (\<forall>callers. mapGet (reverseCallGraph st) (function_name fn) = Some callers \<longrightarrow> callers = [])
        \<longrightarrow> (\<not> function_exported fn \<longrightarrow>
               \<lparr> dead_type = ''function'', dead_name = function_name fn,
                 dead_fullName = function_name fn, dead_file = file_relativePath file,
                 dead_line = function_line fn,
                 dead_reason = ''No callers found and not exported'' \<rparr>
               \<in> set (detectDeadCode st fileInfos))
          \<and> (function_exported fn \<longrightarrow> deadFunctionItems (reverseCallGraph st) file fn = [])
          \<and> deadFunctionItems (reverseCallGraph st) file (fn\<lparr>function_exported := False\<rparr>)
              = [\<lparr> dead_type = ''function'', dead_name = function_name fn,
                   dead_fullName = function_name fn, dead_file = file_relativePath file,
                   dead_line = function_line fn,
                   dead_reason = ''No callers found and not exported'' \<rparr>]
          \<and> deadFunctionItems (reverseCallGraph st) file (fn\<lparr>function_exported := True\<rparr>) = []"
  proof
    assume "file \<in> set fileInfos \<and> fn \<in> set (file_functions file)
        \<and> (\<forall>callers. mapGet (reverseCallGraph st) (function_name fn) = Some callers \<longrightarrow> callers = [])"
    then have h: "file \<in> set fileInfos" "fn \<in> set (file_functions file)"
      and z: "noCallers (reverseCallGraph st) (function_name fn)"
      by (simp_all add: nc)
    have "functionItem file fn \<in> set (detectDeadCode st fileInfos)" if "\<not> function_exported fn"
      unfolding dead_item_cases dead_function_item using h z that by blast
    then have 1: "\<not> function_exported fn \<longrightarrow>
               \<lparr> dead_type = ''function'', dead_name = function_name fn,
                 dead_fullName = function_name fn, dead_file = file_relativePath file,
                 dead_line = function_line fn,
                 dead_reason = ''No callers found and not exported'' \<rparr>
               \<in> set (detectDeadCode st fileInfos)"
      by (simp only: functionItem_def) simp
    have 2: "function_exported fn \<longrightarrow> deadFunctionItems (reverseCallGraph st) file fn = []"
      by (simp add: deadFunctionItems_def)
    have 3: "deadFunctionItems (reverseCallGraph st) file (fn\<lparr>function_exported := False\<rparr>)
              = [\<lparr> dead_type = ''function'', dead_name = function_name fn,
                   dead_fullName = function_name fn, dead_file = file_relativePath file,
                   dead_line = function_line fn,
                   dead_reason = ''No callers found and not exported'' \<rparr>]"
      using z by (simp add: deadFunctionItems_def functionItem_def)
    have 4: "deadFunctionItems (reverseCallGraph st) file (fn\<lparr>function_exported := True\<rparr>) = []"
      by (simp add: deadFunctionItems_def)
    show "(\<not> function_exported fn \<longrightarrow>
               \<lparr> dead_type = ''function'', dead_name = function_name fn,
                 dead_fullName = function_name fn, dead_file = file_relativePath file,
                 dead_line = function_line fn,
                 dead_reason = ''No callers found and not exported'' \<rparr>
               \<in> set (detectDeadCode st fileInfos))
          \<and> (function_exported fn \<longrightarrow> deadFunctionItems (reverseCallGraph st) file fn = [])
          \<and> deadFunctionItems (reverseCallGraph st) file (fn\<lparr>function_exported := False\<rparr>)
              = [\<lparr> dead_type = ''function'', dead_name = function_name fn,
                   dead_fullName = function_name fn, dead_file = file_relativePath file,
                   dead_line = function_line fn,
                   dead_reason = ''No callers found and not exported'' \<rparr>]
          \<and> deadFunctionItems (reverseCallGraph st) file (fn\<lparr>function_exported := True\<rparr>) = []"
      by (rule conjI [OF 1 conjI [OF 2 conjI [OF 3 4]]])
  qed
  show ?thesis by (rule conjI [OF iff per])
qed

theorem dead_function_reported_witness:
  "\<lparr> dead_type = ''function'', dead_name = ''helper'', dead_fullName = ''helper'',
     dead_file = ''cmp.ts'', dead_line = 30,
     dead_reason = ''No callers found and not exported'' \<rparr>
     \<in> set (detectDeadCode initialState [deadDemoFile])
   \<and> deadFunctionItems (reverseCallGraph initialState) deadDemoFile (mkFunction ''api'' True []) = []
   \<and> deadFunctionItems (reverseCallGraph initialState) deadDemoFile
        ((mkFunction ''api'' True [])\<lparr>function_exported := False\<rparr>)
      = [\<lparr> dead_type = ''function'', dead_name = ''api'', dead_fullName = ''api'',
           dead_file = ''cmp.ts'', dead_line = 1,
           dead_reason = ''No callers found and not exported'' \<rparr>]"
proof -
  let ?h = "(mkFunction ''helper'' False [])\<lparr>function_line := 30\<rparr>"
  let ?a = "mkFunction ''api'' True []"
  have g: "\<forall>callers. mapGet (reverseCallGraph initialState) n = Some callers \<longrightarrow> callers = []" for n
    by (simp add: initialState_def mapGet_def)
  have f: "deadDemoFile \<in> set [deadDemoFile]" by simp
  have h: "?h \<in> set (file_functions deadDemoFile)"
    and a: "?a \<in> set (file_functions deadDemoFile)"
    by (simp_all add: deadDemoFile_def mkFile_def)
  have eh: "\<not> function_exported ?h"
    and ea: "function_exported ?a"
    by (simp_all add: mkFunction_def)
  note th = dead_function_reported [of _ initialState "[deadDemoFile]" deadDemoFile ?h,
      THEN conjunct2, THEN mp, OF conjI [OF f conjI [OF h g]]]
  from th [THEN conjunct1, THEN mp, OF eh]
  have 1: "\<lparr> dead_type = ''function'', dead_name = ''helper'', dead_fullName = ''helper'',
     dead_file = ''cmp.ts'', dead_line = 30,
     dead_reason = ''No callers found and not exported'' \<rparr>
     \<in> set (detectDeadCode initialState [deadDemoFile])"
    by (simp add: mkFunction_def deadDemoFile_def mkFile_def)
  note ta = dead_function_reported [of _ initialState "[deadDemoFile]" deadDemoFile ?a,
      THEN conjunct2, THEN mp, OF conjI [OF f conjI [OF a g]]]
  from ta [THEN conjunct2, THEN conjunct1, THEN mp, OF ea]
  have 2: "deadFunctionItems (reverseCallGraph initialState) deadDemoFile (mkFunction ''api'' True []) = []" .
  from ta [THEN conjunct2, THEN conjunct2, THEN conjunct1]
  have 3: "deadFunctionItems (reverseCallGraph initialState) deadDemoFile
        ((mkFunction ''api'' True [])\<lparr>function_exported := False\<rparr>)
      = [\<lparr> dead_type = ''function'', dead_name = ''api'', dead_fullName = ''api'',
           dead_file = ''cmp.ts'', dead_line = 1,
           dead_reason = ''No callers found and not exported'' \<rparr>]"
    by (simp add: mkFunction_def deadDemoFile_def mkFile_def)
  show ?thesis by (rule conjI [OF 1 conjI [OF 2 3]])
qed

subsection \<open>Graphs and patterns\<close>

lemma hasEdge_addEdge:
  "hasEdge (addEdge k v g) k' v' \<longleftrightarrow> (k' = k \<and> v' = v) \<or> hasEdge g k' v'"
  by (auto simp: hasEdge_def addEdge_def mapHas_def mapGet_def mapSet_def update_conv' setAdd_def
      Let_def split: option.splits if_splits)

lemma edges_addEdge: "edges (addEdge k v g) = insert (k, v) (edges g)"
  by (auto simp: edges_def hasEdge_addEdge)

lemma lit_append [simp]: "lit p (p @ s) = Some s"
  by (induction p) auto

lemma lit_suffix: "lit p s = Some r \<Longrightarrow> set r \<subseteq> set s"
  by (induction p s rule: lit.induct) (auto split: if_splits)

lemma lit_Some_iff: "lit p s = Some r \<longleftrightarrow> s = p @ r"
  by (induction p s rule: lit.induct) auto

lemma word_ident:
  "isIdent w \<Longrightarrow> r = [] \<or> \<not> isWordChar (hd r) \<Longrightarrow> word (w @ r) = Some (w, r)"
  by (cases r) (auto simp: word_def isIdent_def list_all_iff takeWhile_append2 dropWhile_append2
     takeWhile_eq_Nil_iff)

lemma dot_not_word [simp]: "\<not> isWordChar CHR ''.''" "\<not> isSpace CHR ''.''"
  by (simp_all add: isWordChar_def isSpace_def)

lemma spaces_nonspace [simp]: "\<not> isSpace c \<Longrightarrow> spaces (c # r) = c # r"
  by (simp add: spaces_def)

lemma spaces_Nil [simp]: "spaces [] = []"
  by (simp add: spaces_def)

lemma ident_not_space: "isIdent w \<Longrightarrow> spaces (w @ r) = w @ r"
  apply (cases w) apply (auto simp: isIdent_def spaces_def isWordChar_def isSpace_def Let_def)
  done

lemma simpleMatchRest_chain:
  assumes "isIdent b" "isIdent c" "r = [] \<or> \<not> isWordChar (hd r)"
  shows "simpleMatchRest (''this.'' @ b @ ''.'' @ c @ r) = Some ((b, c), r)"
proof -
  have 1: "lit ''this.'' (''this.'' @ b @ ''.'' @ c @ r) = Some (b @ ''.'' @ c @ r)"
    by (rule lit_append)
  have 2: "word (b @ ''.'' @ c @ r) = Some (b, ''.'' @ c @ r)"
    using assms(1) by (intro word_ident) auto
  have 3: "lit ''.'' (spaces (''.'' @ c @ r)) = Some (c @ r)"
    by simp
  have 4: "word (spaces (c @ r)) = Some (c, r)"
    using assms(2,3) by (simp add: ident_not_space word_ident)
  show ?thesis
    unfolding simpleMatchRest_def by (simp only: 1 2 3 4 bind.simps split)
qed


lemma nestedMatch_chain:
  assumes "isIdent b" "isIdent c" "isIdent m"
  shows "nestedMatch (''this.'' @ b @ ''.'' @ c @ ''.'' @ m) = Some (b, c, m)"
proof -
  have 1: "simpleMatchRest (''this.'' @ b @ ''.'' @ c @ ''.'' @ m) = Some ((b, c), ''.'' @ m)"
    using assms(1,2) by (intro simpleMatchRest_chain) auto
  have 2: "lit ''.'' (spaces (''.'' @ m)) = Some m"
    by simp
  have 3: "word (spaces m) = Some (m, [])"
    using assms(3) word_ident [of m "[]"] ident_not_space [of m "[]"] by simp
  show ?thesis
    unfolding nestedMatch_def by (simp only: 1 2 3 bind.simps split)
qed

lemma simpleMatch_chain:
  assumes "isIdent b" "isIdent c" "r = [] \<or> \<not> isWordChar (hd r)"
  shows "simpleMatch (''this.'' @ b @ ''.'' @ c @ r) = Some (b, c)"
  using simpleMatchRest_chain [OF assms] by (simp add: simpleMatch_def)

lemma spaces_subset: "set (spaces s) \<subseteq> set s"
  by (auto simp: spaces_def dest: set_dropWhileD)

lemma injectAt_paren: "injectAt s = Some r \<Longrightarrow> CHR ''('' \<in> set s"
proof -
  assume a: "injectAt s = Some r"
  then obtain r1 r2 where 1: "lit ''inject'' s = Some r1" and 2: "lit ''('' (spaces r1) = Some r2"
    by (auto simp: injectAt_def injectTypeAt_def bind_eq_Some_conv)
  from 2 have "CHR ''('' \<in> set (spaces r1)" by (simp add: lit_Some_iff)
  with spaces_subset have "CHR ''('' \<in> set r1" by blast
  with lit_suffix [OF 1] show ?thesis by blast
qed

lemma search_None: "(\<And>t. set t \<subseteq> set s \<Longrightarrow> f t = None) \<Longrightarrow> search f s = None"
  by (induction s) (auto simp: subset_insertI2)

lemma injectMatch_no_paren: "CHR ''('' \<notin> set s \<Longrightarrow> injectMatch s = None"
  unfolding injectMatch_def
  by (rule search_None) (metis injectAt_paren not_Some_eq subsetD)

lemma ident_no_paren: "isIdent w \<Longrightarrow> CHR ''('' \<notin> set w"
  by (auto simp: isIdent_def list_all_iff isWordChar_def Let_def)

lemma fullNameOf_nonempty [simp]: "fullNameOf a b \<noteq> []"
  by (simp add: fullNameOf_def)

lemma resolve_transitive:
  assumes id: "isIdent b" "isIdent c" "isIdent m"
    and b: "mapGet injections b = Some B" "B \<noteq> []"
    and n: "mapGet (nestedInjectionMap st) B = Some nested"
    and c: "mapGet nested c = Some C" "C \<noteq> []"
  shows "resolveMethodCall st injections (''this.'' @ b @ ''.'' @ c @ ''.'' @ m) = Some (fullNameOf C m)"
proof -
  define call where "call = ''this.'' @ b @ ''.'' @ c @ ''.'' @ m"
  have s: "simpleMatch call = Some (b, c)"
    unfolding call_def using id(1,2) by (intro simpleMatch_chain) auto
  have nm: "nestedMatch call = Some (b, c, m)"
    unfolding call_def using id by (rule nestedMatch_chain)
  have "CHR ''('' \<notin> set call"
    unfolding call_def using id by (auto dest: ident_no_paren)
  then have im: "injectMatch call = None"
    by (rule injectMatch_no_paren)
  have 1: "simpleRule st injections call None = None"
    using b n c by (simp add: simpleRule_def s truthy_def mapHas_def mapGet_def)
  have 2: "nestedRule st injections call None = Some (fullNameOf C m)"
    using b n c by (simp add: nestedRule_def nm truthy_def)
  have "resolveMethodCall st injections call = Some (fullNameOf C m)"
    by (simp add: resolveMethodCall_def 1 2 injectRule_def im truthy_def)
  then show ?thesis
    by (simp only: call_def)
qed

lemma fold_edges:
  assumes "\<And>x g. edges (f x g) = edges g \<union> E x"
  shows "edges (fold f xs g) = edges g \<union> (\<Union>x \<in> set xs. E x)"
  using assms by (induction xs arbitrary: g) auto

lemma mapState_union:
  assumes "\<And>x s y s'. f x s = (y, s') \<Longrightarrow> P s' = P s \<union> E y"
    and "mapState f xs s = (ys, s')"
  shows "P s' = P s \<union> (\<Union>y \<in> set ys. E y)"
  using assms(2)
proof (induction xs arbitrary: s ys s')
  case Nil
  then show ?case by simp
next
  case (Cons x xs)
  obtain y s1 where 1: "f x s = (y, s1)" by (cases "f x s")
  obtain ys1 s2 where 2: "mapState f xs s1 = (ys1, s2)" by (cases "mapState f xs s1")
  from Cons.prems 1 2 have e: "ys = y # ys1" "s' = s2" by auto
  from assms(1) [OF 1] Cons.IH [OF 2] show ?case
    unfolding e by auto
qed

lemma mapState_frame:
  assumes "\<And>x s y s'. f x s = (y, s') \<Longrightarrow> P s' = P s"
    and "mapState f xs s = (ys, s')"
  shows "P s' = P s"
  using assms(2)
proof (induction xs arbitrary: s ys s')
  case Nil
  then show ?case by simp
next
  case (Cons x xs)
  obtain y s1 where 1: "f x s = (y, s1)" by (cases "f x s")
  obtain ys1 s2 where 2: "mapState f xs s1 = (ys1, s2)" by (cases "mapState f xs s1")
  from Cons.prems 1 2 have e: "ys = y # ys1" "s' = s2" by auto
  from assms(1) [OF 1] Cons.IH [OF 2] show ?case
    unfolding e by auto
qed

lemma edges_addResolved:
  "edges (addResolved r caller g) = edges g \<union> (case r of None \<Rightarrow> {} | Some callee \<Rightarrow> {(callee, caller)})"
  by (auto simp: addResolved_def edges_addEdge split: option.splits)

lemma edges_resolveMethod:
  "edges (resolveMethod st className method g) = edges g \<union> methodResolvedEdges st className method"
proof -
  have "edges (resolveMethod st className method g)
        = edges g \<union> (\<Union>call \<in> set (method_calls method).
             (case resolveMethodCall st (orEmpty (mapGet (injectionMap st) className)) call of
                None \<Rightarrow> {} | Some callee \<Rightarrow> {(callee, fullNameOf className (method_name method))}))"
    unfolding resolveMethod_def Let_def by (rule fold_edges) (rule edges_addResolved)
  also have "\<dots> = edges g \<union> methodResolvedEdges st className method"
    by (auto simp: methodResolvedEdges_def split: option.splits)
  finally show ?thesis .
qed

lemma edges_resolveFunction:
  "edges (resolveFunction st fn g) = edges g \<union> functionResolvedEdges st fn"
proof -
  have "edges (resolveFunction st fn g)
        = edges g \<union> (\<Union>call \<in> set (function_calls fn).
             (case resolveFunctionCall st (orEmpty (mapGet (localInjectionMap st) (function_name fn))) call of
                None \<Rightarrow> {} | Some callee \<Rightarrow> {(callee, ''function:'' @ function_name fn)}))"
    unfolding resolveFunction_def Let_def by (rule fold_edges) (rule edges_addResolved)
  also have "\<dots> = edges g \<union> functionResolvedEdges st fn"
    by (auto simp: functionResolvedEdges_def split: option.splits)
  finally show ?thesis .
qed

lemma edges_resolveClass:
  "edges (resolveClass st cls g)
     = edges g \<union> (\<Union>method \<in> set (class_methods cls). methodResolvedEdges st (class_name cls) method)"
  unfolding resolveClass_def by (rule fold_edges) (rule edges_resolveMethod)

lemma edges_resolveFile:
  "edges (resolveFile st file g) = edges g \<union> fileResolvedEdges st file"
proof -
  have 1: "edges (fold (resolveClass st) (file_classes file) g)
     = edges g \<union> (\<Union>cls \<in> set (file_classes file). \<Union>method \<in> set (class_methods cls).
                     methodResolvedEdges st (class_name cls) method)"
    by (rule fold_edges) (rule edges_resolveClass)
  have 2: "edges (fold (resolveFunction st) (file_functions file) g')
     = edges g' \<union> (\<Union>fn \<in> set (file_functions file). functionResolvedEdges st fn)" for g'
    by (rule fold_edges) (rule edges_resolveFunction)
  show ?thesis
    unfolding resolveFile_def 2 1 fileResolvedEdges_def by (simp add: Un_assoc)
qed

lemma edges_resolveCrossFileCalls:
  "edges (reverseCallGraph (resolveCrossFileCalls fileInfos st))
     = edges (reverseCallGraph st) \<union> resolvedEdges st fileInfos"
proof -
  have "edges (fold (resolveFile st) fileInfos g) = edges g \<union> (\<Union>file \<in> set fileInfos. fileResolvedEdges st file)" for g
    by (rule fold_edges) (rule edges_resolveFile)
  then show ?thesis
    by (simp add: resolveCrossFileCalls_def resolvedEdges_def)
qed

subsection \<open>Transitive injection resolution\<close>

lemma fullNameOf_inject: "fullNameOf a x = fullNameOf b x \<longleftrightarrow> a = b"
  by (simp add: fullNameOf_def)

lemma ident_no_dot: "isIdent w \<Longrightarrow> CHR ''.'' \<notin> set w"
  by (auto simp: isIdent_def list_all_iff)

lemma takeWhile_upto: "a \<notin> set xs \<Longrightarrow> takeWhile (\<lambda>c. c \<noteq> a) (xs @ a # ys) = xs"
  by (induction xs) auto

lemma split_last_dot:
  assumes "a @ CHR ''.'' # x = b @ CHR ''.'' # y" "CHR ''.'' \<notin> set x" "CHR ''.'' \<notin> set y"
  shows "a = b \<and> x = y"
proof -
  have "takeWhile (\<lambda>c. c \<noteq> CHR ''.'') (rev (a @ CHR ''.'' # x)) = rev x"
    using assms(2) takeWhile_upto [of "CHR ''.''" "rev x" "rev a"] by simp
  moreover have "takeWhile (\<lambda>c. c \<noteq> CHR ''.'') (rev (b @ CHR ''.'' # y)) = rev y"
    using assms(3) takeWhile_upto [of "CHR ''.''" "rev y" "rev b"] by simp
  ultimately have "x = y" using assms(1) by simp
  with assms(1) show ?thesis by simp
qed

lemma fullNameOf_eq_ident:
  "isIdent x \<Longrightarrow> isIdent y \<Longrightarrow> fullNameOf a x = fullNameOf b y \<longleftrightarrow> a = b \<and> x = y"
  unfolding fullNameOf_def using split_last_dot [of a x b y] by (auto dest: ident_no_dot)

text \<open>
  After pass 1 the map that binds the nested properties is the injection map itself, so
  the binding map of a class is the same whichever of the two the pass reads.
\<close>

lemma collectClass_maps:
  "injectionMap (fst acc) = snd acc \<Longrightarrow> injectionMap (fst (collectClass cls acc)) = snd (collectClass cls acc)"
  by (auto simp: collectClass_def Let_def split: option.splits prod.splits)

lemma collectClassInfo_maps:
  "nestedInjectionMap (collectClassInfo sourceFiles initialState)
     = injectionMap (collectClassInfo sourceFiles initialState)"
proof -
  have 1: "injectionMap (fst acc) = snd acc \<Longrightarrow>
           injectionMap (fst (fold collectClass classes acc)) = snd (fold collectClass classes acc)"
    for classes acc
    by (induction classes arbitrary: acc) (simp_all add: collectClass_maps)
  have 2: "injectionMap (fst acc) = snd acc \<Longrightarrow>
           injectionMap (fst (fold (\<lambda>sourceFile. fold collectClass (sf_classes sourceFile)) files acc))
             = snd (fold (\<lambda>sourceFile. fold collectClass (sf_classes sourceFile)) files acc)"
    for files acc
    by (induction files arbitrary: acc) (simp_all add: 1)
  have "injectionMap (fst (initialState, [])) = snd (initialState, ([] :: string jsmap jsmap))"
    by (simp add: initialState_def)
  from 2 [OF this, of sourceFiles] show ?thesis
    by (auto simp: collectClassInfo_def split: prod.splits)
qed

text \<open>
  C2. Class \<open>A\<close> binds \<open>b\<close> to \<open>B\<close>, and \<open>B\<close> binds \<open>c\<close> to
  \<open>C\<close>. For a method of \<open>A\<close> whose calls contain \<open>this.b.c.m\<close>, the call
  text resolves to \<open>C.m\<close>; its step of the pass adds exactly the edge from
  \<open>C.m\<close> to the calling method; the edge is in the reverse graph after the pass; and
  the callee is neither \<open>B.m\<close> nor \<open>B.c\<close> when \<open>B\<close> and \<open>C\<close> differ.
\<close>

theorem transitive_injection_resolution:
  assumes id: "isIdent b" "isIdent c" "isIdent m"
    and a: "mapGet (injectionMap st) A = Some bindingsA"
    and b: "mapGet bindingsA b = Some B" "B \<noteq> []"
    and n: "mapGet (nestedInjectionMap st) B = Some bindingsB"
    and c: "mapGet bindingsB c = Some C" "C \<noteq> []"
    and f: "file \<in> set fileInfos" "cls \<in> set (file_classes file)" "class_name cls = A"
      "method \<in> set (class_methods cls)"
    and call: "''this.'' @ b @ ''.'' @ c @ ''.'' @ m \<in> set (method_calls method)"
  shows "resolveMethodCall st bindingsA (''this.'' @ b @ ''.'' @ c @ ''.'' @ m) = Some (fullNameOf C m)
     \<and> edges (addResolved (resolveMethodCall st (orEmpty (mapGet (injectionMap st) A))
                              (''this.'' @ b @ ''.'' @ c @ ''.'' @ m))
                (fullNameOf A (method_name method)) g)
         = insert (fullNameOf C m, fullNameOf A (method_name method)) (edges g)
     \<and> (fullNameOf C m, fullNameOf A (method_name method))
          \<in> edges (reverseCallGraph (resolveCrossFileCalls fileInfos st))
     \<and> (B \<noteq> C \<longrightarrow> fullNameOf C m \<noteq> fullNameOf B m \<and> fullNameOf C m \<noteq> fullNameOf B c)"
proof -
  define ct where "ct = ''this.'' @ b @ ''.'' @ c @ ''.'' @ m"
  have r: "resolveMethodCall st bindingsA ct = Some (fullNameOf C m)"
    unfolding ct_def using id b n c by (rule resolve_transitive)
  have o: "orEmpty (mapGet (injectionMap st) A) = bindingsA"
    using a by (simp add: orEmpty_def)
  have step: "edges (addResolved (resolveMethodCall st (orEmpty (mapGet (injectionMap st) A)) ct)
                (fullNameOf A (method_name method)) g)
         = insert (fullNameOf C m, fullNameOf A (method_name method)) (edges g)"
    by (simp add: o r edges_addResolved)
  have "(fullNameOf C m, fullNameOf A (method_name method)) \<in> methodResolvedEdges st A method"
    unfolding methodResolvedEdges_def using call r o ct_def by auto
  with f have "(fullNameOf C m, fullNameOf A (method_name method)) \<in> resolvedEdges st fileInfos"
    unfolding resolvedEdges_def fileResolvedEdges_def by blast
  then have mem: "(fullNameOf C m, fullNameOf A (method_name method))
          \<in> edges (reverseCallGraph (resolveCrossFileCalls fileInfos st))"
    by (simp add: edges_resolveCrossFileCalls)
  have ne: "fullNameOf C m \<noteq> fullNameOf B m \<and> fullNameOf C m \<noteq> fullNameOf B c" if "B \<noteq> C"
    using that id by (auto simp: fullNameOf_inject fullNameOf_eq_ident)
  from r step mem ne show ?thesis
    unfolding ct_def by blast
qed


theorem transitive_injection_resolution_witness:
  "resolveMethodCall (snd demoScanned) [(''_b'', ''B'')] ''this._b.c.m'' = Some ''C.m''
   \<and> (''C.m'', ''A.run'') \<in> edges (reverseCallGraph (resolveCrossFileCalls (fst demoScanned) (snd demoScanned)))
   \<and> ''C.m'' \<noteq> ''B.m'' \<and> ''C.m'' \<noteq> ''B.c''"
proof -
  let ?file = "hd (fst demoScanned)"
  let ?cls = "hd (file_classes ?file)"
  let ?meth = "hd (class_methods ?cls)"
  have id: "isIdent ''_b''" "isIdent ''c''" "isIdent ''m''"
    by (simp_all add: isIdent_def isWordChar_def)
  have a: "mapGet (injectionMap (snd demoScanned)) ''A'' = Some [(''_b'', ''B'')]"
    by code_simp
  have b: "mapGet [(''_b'', ''B'')] ''_b'' = Some ''B''" "''B'' \<noteq> []"
    by (simp_all add: mapGet_def)
  have n: "mapGet (nestedInjectionMap (snd demoScanned)) ''B'' = Some [(''c'', ''C'')]"
    by code_simp
  have c: "mapGet [(''c'', ''C'')] ''c'' = Some ''C''" "''C'' \<noteq> []"
    by (simp_all add: mapGet_def)
  have ne: "fst demoScanned \<noteq> []" "file_classes ?file \<noteq> []" "class_methods ?cls \<noteq> []"
    by code_simp+
  then have f: "?file \<in> set (fst demoScanned)" "?cls \<in> set (file_classes ?file)"
    "?meth \<in> set (class_methods ?cls)"
    by simp_all
  have cn: "class_name ?cls = ''A''" and mn: "method_name ?meth = ''run''"
    by code_simp+
  have call: "''this.'' @ ''_b'' @ ''.'' @ ''c'' @ ''.'' @ ''m'' \<in> set (method_calls ?meth)"
    by code_simp
  have bc: "''B'' \<noteq> ''C''" by simp
  from transitive_injection_resolution [OF id a b n c f(1,2) cn f(3) call, of "[]"] bc mn
  show ?thesis
    by (simp add: fullNameOf_def)
qed

subsection \<open>Precedence of the resolution rules\<close>

text \<open>
  C3. In the class branch each rule assigns the resolved callee without looking at what
  an earlier rule found. For the call text \<open>this._b.get(inject(Foo).bar).z\<close> of
  \<open>A.run\<close> the first rule resolves \<open>B.get\<close>, and the inline \<open>inject\<close> rule
  then replaces it: the pass emits \<open>Foo.bar\<close> for this text. The function branch
  keeps the first resolution.
\<close>

theorem inject_rule_overrides_earlier_rule:
  "simpleRule overrideState [(''_b'', ''B'')] ''this._b.get(inject(Foo).bar).z'' None = Some ''B.get''
   \<and> resolveMethodCall overrideState [(''_b'', ''B'')] ''this._b.get(inject(Foo).bar).z'' = Some ''Foo.bar''
   \<and> mapGet (injectionMap overrideState) ''A'' = Some [(''_b'', ''B'')]
   \<and> reverseCallGraph (snd (scanModel Angular overrideProject))
       = [(''this._b.get(inject(Foo).bar).z'', [''A.run'']), (''this._b.get'', [''A.run'']),
          (''inject'', [''A.run'']), (''Foo.bar'', [''A.run'']), (''B.get'', [''A.run''])]
   \<and> localVarRule overrideState [(''x'', ''B'')] ''x.get(inject(Foo).bar)'' (Some ''Foo.bar'') = Some ''Foo.bar''"
  by code_simp

subsection \<open>The reverse graph after the scan\<close>


lemma scanMethod_edges:
  assumes "scanMethod className method st = (mi, st')"
  shows "edges (reverseCallGraph st') = edges (reverseCallGraph st) \<union> methodRawEdges className mi"
proof -
  have "edges (fold (\<lambda>call g. addEdge call full g) calls g) = edges g \<union> (\<Union>call \<in> set calls. {(call, full)})"
    for calls full g
    by (rule fold_edges) (simp add: edges_addEdge)
  with assms show ?thesis
    by (auto simp: scanMethod_def Let_def methodRawEdges_def fullNameOf_def)
qed

lemma scanClass_edges:
  assumes "scanClass cls st = (ci, st')"
  shows "edges (reverseCallGraph st') = edges (reverseCallGraph st)
           \<union> (\<Union>method \<in> set (class_methods ci). methodRawEdges (class_name ci) method)"
proof -
  obtain methods st1 where m: "mapState (scanMethod (orAnonymous (cd_name cls))) (cd_methods cls) st = (methods, st1)"
    by (cases "mapState (scanMethod (orAnonymous (cd_name cls))) (cd_methods cls) st")
  from assms m have e: "st' = st1" "class_methods ci = methods" "class_name ci = orAnonymous (cd_name cls)"
    by (auto simp: scanClass_def Let_def)
  have "edges (reverseCallGraph st1) = edges (reverseCallGraph st)
           \<union> (\<Union>method \<in> set methods. methodRawEdges (orAnonymous (cd_name cls)) method)"
    by (rule mapState_union [OF _ m]) (rule scanMethod_edges)
  then show ?thesis by (simp add: e)
qed

lemma getClasses_edges:
  assumes "getClasses sourceFile st = (classes, st')"
  shows "edges (reverseCallGraph st') = edges (reverseCallGraph st)
           \<union> (\<Union>cls \<in> set classes. \<Union>method \<in> set (class_methods cls). methodRawEdges (class_name cls) method)"
  using assms unfolding getClasses_def
  by (rule mapState_union [rotated]) (rule scanClass_edges)

lemma recordFunction_frame:
  "recordFunction fnName body st = (calls, st') \<Longrightarrow> reverseCallGraph st' = reverseCallGraph st"
  by (auto simp: recordFunction_def Let_def split: if_splits)

lemma scanFunction_frame:
  "scanFunction fn st = (fi, st') \<Longrightarrow> reverseCallGraph st' = reverseCallGraph st"
  by (auto simp: scanFunction_def Let_def split: prod.splits dest: recordFunction_frame)

lemma scanVariable_frame:
  "scanVariable varDecl st = (fis, st') \<Longrightarrow> reverseCallGraph st' = reverseCallGraph st"
  by (auto simp: scanVariable_def Let_def split: prod.splits option.splits dest: recordFunction_frame)

lemma getFunctions_frame:
  assumes "getFunctions sourceFile st = (functions, st')"
  shows "reverseCallGraph st' = reverseCallGraph st"
proof -
  obtain declared st1 where 1: "mapState scanFunction (sf_functions sourceFile) st = (declared, st1)"
    by (cases "mapState scanFunction (sf_functions sourceFile) st")
  obtain bound st2 where 2: "mapState scanVariable (sf_variables sourceFile) st1 = (bound, st2)"
    by (cases "mapState scanVariable (sf_variables sourceFile) st1")
  from assms 1 2 have "st' = st2" by (simp add: getFunctions_def)
  moreover have "reverseCallGraph st1 = reverseCallGraph st"
    by (rule mapState_frame [OF _ 1]) (rule scanFunction_frame)
  moreover have "reverseCallGraph st2 = reverseCallGraph st1"
    by (rule mapState_frame [OF _ 2]) (rule scanVariable_frame)
  ultimately show ?thesis by simp
qed

lemma scanFile_edges:
  assumes "scanFile sourceFile st = (file, st')"
  shows "edges (reverseCallGraph st') = edges (reverseCallGraph st) \<union> rawEdges [file]"
    and "file_templateBindings file = None"
    and "file_relativePath file = sf_relativePath sourceFile"
proof -
  obtain classes st1 where 1: "getClasses sourceFile st = (classes, st1)"
    by (cases "getClasses sourceFile st")
  obtain fns st2 where 2: "getFunctions sourceFile st1 = (fns, st2)"
    by (cases "getFunctions sourceFile st1")
  from assms 1 2 have e: "st' = st2" "file_classes file = classes" "file_templateBindings file = None"
    "file_relativePath file = sf_relativePath sourceFile"
    by (auto simp: scanFile_def)
  from getClasses_edges [OF 1] getFunctions_frame [OF 2] e
  show "edges (reverseCallGraph st') = edges (reverseCallGraph st) \<union> rawEdges [file]"
    by (simp add: rawEdges_def)
  from e show "file_templateBindings file = None" "file_relativePath file = sf_relativePath sourceFile"
    by simp_all
qed


lemma edges_addTemplateBinding:
  "edges (addTemplateBinding className relativePath binding g)
     = edges g \<union> bindingEdges className relativePath binding"
  by (auto simp: addTemplateBinding_def bindingEdges_def edges_addEdge fullNameOf_def split: option.splits)

lemma addTemplateBindings_edges:
  "edges (reverseCallGraph (addTemplateBindingsToCallGraph file bindings st))
     = edges (reverseCallGraph st) \<union> fileTemplateEdges (file\<lparr>file_templateBindings := Some bindings\<rparr>)"
proof -
  have "edges (fold (addTemplateBinding cn rel) bindings g)
          = edges g \<union> (\<Union>binding \<in> set bindings. bindingEdges cn rel binding)" for cn rel g
    by (rule fold_edges) (rule edges_addTemplateBinding)
  then show ?thesis
    by (simp add: addTemplateBindingsToCallGraph_def fileTemplateEdges_def split: list.splits)
qed

lemma rawEdges_templateBindings [simp]:
  "rawEdges [file\<lparr>file_templateBindings := b\<rparr>] = rawEdges [file]"
  by (simp add: rawEdges_def)

lemma scanSourceFile_edges:
  assumes "scanSourceFile framework sourceFile st = (file, st')"
  shows "edges (reverseCallGraph st')
           = edges (reverseCallGraph st) \<union> (rawEdges [file] \<union> fileTemplateEdges file)"
proof -
  obtain file0 st1 where 1: "scanFile sourceFile st = (file0, st1)"
    by (cases "scanFile sourceFile st")
  note sf = scanFile_edges [OF 1]
  show ?thesis
  proof (cases "framework = Angular \<and> length (scanAngularTemplate sourceFile) > 0")
    case True
    with assms 1 have e: "file = file0\<lparr>file_templateBindings := Some (scanAngularTemplate sourceFile)\<rparr>"
      "st' = addTemplateBindingsToCallGraph file0 (scanAngularTemplate sourceFile) st1"
      by (auto simp: scanSourceFile_def Let_def)
    show ?thesis
      unfolding e addTemplateBindings_edges sf(1) by (simp add: Un_assoc)
  next
    case False
    with assms 1 have e: "file = file0" "st' = st1"
      by (auto simp: scanSourceFile_def Let_def split: if_splits)
    show ?thesis
      unfolding e sf(1) using sf(2) by (simp add: fileTemplateEdges_def)
  qed
qed

lemma rawEdges_Union: "rawEdges fileInfos = (\<Union>file \<in> set fileInfos. rawEdges [file])"
  by (simp add: rawEdges_def)

lemma scanFiles_edges:
  assumes "scanFiles framework sourceFiles st = (fileInfos, st')"
  shows "edges (reverseCallGraph st')
           = edges (reverseCallGraph st) \<union> (rawEdges fileInfos \<union> templateEdges fileInfos)"
proof -
  have "edges (reverseCallGraph st')
           = edges (reverseCallGraph st) \<union> (\<Union>file \<in> set fileInfos. rawEdges [file] \<union> fileTemplateEdges file)"
    using assms unfolding scanFiles_def
    by (rule mapState_union [rotated]) (rule scanSourceFile_edges)
  also have "(\<Union>file \<in> set fileInfos. rawEdges [file] \<union> fileTemplateEdges file)
               = rawEdges fileInfos \<union> templateEdges fileInfos"
    unfolding rawEdges_Union [of fileInfos] templateEdges_def by blast
  finally show ?thesis .
qed

lemma collectClass_frame:
  "reverseCallGraph (fst (collectClass cls acc)) = reverseCallGraph (fst acc)"
  by (auto simp: collectClass_def Let_def split: option.splits prod.splits)

lemma collectClassInfo_frame:
  "reverseCallGraph (collectClassInfo sourceFiles st) = reverseCallGraph st"
proof -
  have 1: "reverseCallGraph (fst (fold collectClass classes acc)) = reverseCallGraph (fst acc)"
    for classes acc
    by (induction classes arbitrary: acc) (simp_all add: collectClass_frame)
  have 2: "reverseCallGraph (fst (fold (\<lambda>sourceFile. fold collectClass (sf_classes sourceFile)) files acc))
             = reverseCallGraph (fst acc)" for files acc
    by (induction files arbitrary: acc) (simp_all add: 1)
  show ?thesis
    using 2 [of sourceFiles "(st, [])"] by (auto simp: collectClassInfo_def split: prod.splits)
qed


lemma backfillMethod_fields [simp]:
  "method_name (backfillMethod g cn m) = method_name m"
  "method_calls (backfillMethod g cn m) = method_calls m"
  by (simp_all add: backfillMethod_def split: option.splits)

lemma backfillClass_fields [simp]:
  "class_name (backfillClass g c) = class_name c"
  "class_methods (backfillClass g c) = map (backfillMethod g (class_name c)) (class_methods c)"
  by (simp_all add: backfillClass_def)

lemma methodRawEdges_backfill [simp]:
  "methodRawEdges cn (backfillMethod g cn' m) = methodRawEdges cn m"
  by (simp add: methodRawEdges_def)

lemma methodResolvedEdges_backfill [simp]:
  "methodResolvedEdges st cn (backfillMethod g cn' m) = methodResolvedEdges st cn m"
  by (simp add: methodResolvedEdges_def)

lemma rawEdges_buildCallGraph [simp]: "rawEdges (buildCallGraph fileInfos st) = rawEdges fileInfos"
  by (simp add: rawEdges_def buildCallGraph_def)

lemma fileTemplateEdges_backfill:
  "fileTemplateEdges (file\<lparr>file_classes := map (backfillClass g) (file_classes file)\<rparr>)
     = fileTemplateEdges file"
  by (cases "file_classes file") (simp_all add: fileTemplateEdges_def split: option.splits)

lemma templateEdges_buildCallGraph [simp]:
  "templateEdges (buildCallGraph fileInfos st) = templateEdges fileInfos"
  by (simp add: templateEdges_def buildCallGraph_def fileTemplateEdges_backfill)

lemma resolvedEdges_buildCallGraph [simp]:
  "resolvedEdges st' (buildCallGraph fileInfos st) = resolvedEdges st' fileInfos"
  by (simp add: resolvedEdges_def fileResolvedEdges_def buildCallGraph_def)

lemma rules_frame [simp]:
  "simpleRule (st\<lparr>reverseCallGraph := g\<rparr>) = simpleRule st"
  "nestedRule (st\<lparr>reverseCallGraph := g\<rparr>) = nestedRule st"
  "injectRule (st\<lparr>reverseCallGraph := g\<rparr>) = injectRule st"
  "localVarRule (st\<lparr>reverseCallGraph := g\<rparr>) = localVarRule st"
  by (intro ext, simp add: simpleRule_def nestedRule_def injectRule_def localVarRule_def
      cong: option.case_cong prod.case_cong if_cong)+

lemma resolveMethodCall_frame [simp]:
  "resolveMethodCall (st\<lparr>reverseCallGraph := g\<rparr>) = resolveMethodCall st"
  by (intro ext) (simp add: resolveMethodCall_def)

lemma resolveFunctionCall_frame [simp]:
  "resolveFunctionCall (st\<lparr>reverseCallGraph := g\<rparr>) = resolveFunctionCall st"
  by (intro ext) (simp add: resolveFunctionCall_def)

lemma resolvedEdges_frame [simp]:
  "resolvedEdges (st\<lparr>reverseCallGraph := g\<rparr>) fileInfos = resolvedEdges st fileInfos"
  by (simp add: resolvedEdges_def fileResolvedEdges_def methodResolvedEdges_def
      functionResolvedEdges_def)

lemma edges_initial [simp]: "edges (reverseCallGraph initialState) = {}"
  by (simp add: edges_def hasEdge_def initialState_def mapGet_def)

lemma scanModel_edges:
  "edges (reverseCallGraph (snd (scanModel framework sourceFiles)))
     = rawEdges (fst (scanModel framework sourceFiles))
       \<union> templateEdges (fst (scanModel framework sourceFiles))
       \<union> resolvedEdges (snd (scanModel framework sourceFiles)) (fst (scanModel framework sourceFiles))"
proof -
  define st1 where "st1 = collectClassInfo sourceFiles initialState"
  obtain fileInfos st2 where s: "scanFiles framework sourceFiles st1 = (fileInfos, st2)"
    by (cases "scanFiles framework sourceFiles st1")
  have m: "scanModel framework sourceFiles
             = (buildCallGraph fileInfos (resolveCrossFileCalls fileInfos st2),
                resolveCrossFileCalls fileInfos st2)"
    using s by (simp add: scanModel_def st1_def Let_def)
  have "edges (reverseCallGraph st1) = {}"
    by (simp add: st1_def collectClassInfo_frame)
  with scanFiles_edges [OF s]
  have "edges (reverseCallGraph st2) = rawEdges fileInfos \<union> templateEdges fileInfos"
    by simp
  then show ?thesis
    unfolding m by (simp add: edges_resolveCrossFileCalls) (simp add: resolveCrossFileCalls_def)
qed

subsection \<open>The forward graph after the scan\<close>

lemma fold_setAdd_distinct: "distinct (acc @ xs) \<Longrightarrow> fold setAdd xs acc = acc @ xs"
  by (induction xs arbitrary: acc) (auto simp: setAdd_def)

lemma fold_setAdd_is_distinct: "distinct acc \<Longrightarrow> distinct (fold setAdd xs acc)"
  by (induction xs arbitrary: acc) (auto simp: setAdd_def)

lemma newSet_distinct [simp]: "distinct (newSet xs)"
  by (simp add: newSet_def fold_setAdd_is_distinct)

lemma newSet_id: "distinct xs \<Longrightarrow> newSet xs = xs"
  using fold_setAdd_distinct [of "[]" xs] by (simp add: newSet_def)

lemma newSet_extractCalls [simp]: "newSet (extractCalls ts) = extractCalls ts"
  by (simp add: extractCalls_def newSet_id)

lemma map_of_mapSet: "map_of (mapSet k v m) = map_of m ++ map_of (rev [(k, v)])"
  by (simp add: mapSet_def update_conv')

lemma mapState_entries:
  assumes "\<And>x s y s'. f x s = (y, s') \<Longrightarrow> P s' = P s ++ map_of (rev (E y))"
    and "mapState f xs s = (ys, s')"
  shows "P s' = P s ++ map_of (rev (concat (map E ys)))"
  using assms(2)
proof (induction xs arbitrary: s ys s')
  case Nil
  then show ?case by simp
next
  case (Cons x xs)
  obtain y s1 where 1: "f x s = (y, s1)" by (cases "f x s")
  obtain ys1 s2 where 2: "mapState f xs s1 = (ys1, s2)" by (cases "mapState f xs s1")
  from Cons.prems 1 2 have e: "ys = y # ys1" "s' = s2" by auto
  from assms(1) [OF 1] Cons.IH [OF 2] show ?case
    unfolding e by simp
qed

lemma scanMethod_forward:
  assumes "scanMethod className method st = (mi, st')"
  shows "map_of (callGraph st')
           = map_of (callGraph st) ++ map_of (rev [(fullNameOf className (method_name mi), method_calls mi)])"
  using assms by (auto simp: scanMethod_def Let_def map_of_mapSet fullNameOf_def)

lemma scanClass_forward:
  assumes "scanClass cls st = (ci, st')"
  shows "map_of (callGraph st')
           = map_of (callGraph st)
             ++ map_of (rev (map (\<lambda>method. (fullNameOf (class_name ci) (method_name method), method_calls method))
                                 (class_methods ci)))"
proof -
  obtain methods st1 where m: "mapState (scanMethod (orAnonymous (cd_name cls))) (cd_methods cls) st = (methods, st1)"
    by (cases "mapState (scanMethod (orAnonymous (cd_name cls))) (cd_methods cls) st")
  from assms m have e: "st' = st1" "class_methods ci = methods" "class_name ci = orAnonymous (cd_name cls)"
    by (auto simp: scanClass_def Let_def)
  have "map_of (callGraph st1) = map_of (callGraph st)
          ++ map_of (rev (concat (map (\<lambda>method. [(fullNameOf (orAnonymous (cd_name cls)) (method_name method),
                                                   method_calls method)]) methods)))"
    by (rule mapState_entries [OF _ m]) (rule scanMethod_forward)
  moreover have "concat (map (\<lambda>x. [g x]) zs) = map g zs" for g :: "MethodInfo \<Rightarrow> string \<times> string list" and zs
    by (induction zs) auto
  ultimately show ?thesis by (simp add: e)
qed

lemma getClasses_forward:
  assumes "getClasses sourceFile st = (classes, st')"
  shows "map_of (callGraph st')
           = map_of (callGraph st)
             ++ map_of (rev (concat (map (\<lambda>cls. map (\<lambda>method. (fullNameOf (class_name cls) (method_name method),
                                                                method_calls method))
                                                    (class_methods cls)) classes)))"
  using assms unfolding getClasses_def
  by (rule mapState_entries [rotated]) (rule scanClass_forward)

lemma recordFunction_forward:
  assumes "recordFunction fnName body st = (calls, st')"
  shows "map_of (callGraph st') = map_of (callGraph st) ++ map_of (rev [(fnName, calls)])"
  using assms by (auto simp: recordFunction_def Let_def map_of_mapSet split: if_splits)

lemma scanFunction_forward:
  assumes "scanFunction fn st = (fi, st')"
  shows "map_of (callGraph st')
           = map_of (callGraph st) ++ map_of (rev [(function_name fi, function_calls fi)])"
  using assms
  by (auto simp: scanFunction_def Let_def split: prod.splits dest!: recordFunction_forward)

lemma scanVariable_forward:
  assumes "scanVariable varDecl st = (fis, st')"
  shows "map_of (callGraph st')
           = map_of (callGraph st) ++ map_of (rev (map (\<lambda>fn. (function_name fn, function_calls fn)) fis))"
  using assms
  by (auto simp: scanVariable_def Let_def split: prod.splits option.splits dest!: recordFunction_forward)

lemma getFunctions_forward:
  assumes "getFunctions sourceFile st = (fns, st')"
  shows "map_of (callGraph st')
           = map_of (callGraph st) ++ map_of (rev (map (\<lambda>fn. (function_name fn, function_calls fn)) fns))"
proof -
  let ?E = "\<lambda>fn. (function_name fn, function_calls fn)"
  obtain declared st1 where 1: "mapState scanFunction (sf_functions sourceFile) st = (declared, st1)"
    by (cases "mapState scanFunction (sf_functions sourceFile) st")
  obtain bound st2 where 2: "mapState scanVariable (sf_variables sourceFile) st1 = (bound, st2)"
    by (cases "mapState scanVariable (sf_variables sourceFile) st1")
  from assms 1 2 have e: "st' = st2" "fns = declared @ concat bound" by (auto simp: getFunctions_def)
  have a: "map_of (callGraph st1) = map_of (callGraph st) ++ map_of (rev (concat (map (\<lambda>fn. [?E fn]) declared)))"
    by (rule mapState_entries [OF _ 1]) (rule scanFunction_forward)
  have b: "map_of (callGraph st2) = map_of (callGraph st1) ++ map_of (rev (concat (map (map ?E) bound)))"
    by (rule mapState_entries [OF _ 2]) (rule scanVariable_forward)
  have c: "concat (map (\<lambda>x. [?E x]) zs) = map ?E zs" for zs
    by (induction zs) auto
  show ?thesis
    unfolding e b a c by (simp add: map_concat)
qed

lemma scanFile_forward:
  assumes "scanFile sourceFile st = (file, st')"
  shows "map_of (callGraph st') = map_of (callGraph st) ++ map_of (rev (fileForwardEntries file))"
proof -
  obtain classes st1 where 1: "getClasses sourceFile st = (classes, st1)"
    by (cases "getClasses sourceFile st")
  obtain fns st2 where 2: "getFunctions sourceFile st1 = (fns, st2)"
    by (cases "getFunctions sourceFile st1")
  from assms 1 2 have e: "st' = st2" "file_classes file = classes" "file_functions file = fns"
    by (auto simp: scanFile_def)
  show ?thesis
    unfolding e(1) getFunctions_forward [OF 2] getClasses_forward [OF 1] fileForwardEntries_def e(2,3)
    by simp
qed

lemma addTemplateBindings_callGraph [simp]:
  "callGraph (addTemplateBindingsToCallGraph file bindings st) = callGraph st"
  by (simp add: addTemplateBindingsToCallGraph_def split: list.splits)

lemma fileForwardEntries_templateBindings [simp]:
  "fileForwardEntries (file\<lparr>file_templateBindings := b\<rparr>) = fileForwardEntries file"
  by (simp add: fileForwardEntries_def)

lemma scanSourceFile_forward:
  assumes "scanSourceFile framework sourceFile st = (file, st')"
  shows "map_of (callGraph st') = map_of (callGraph st) ++ map_of (rev (fileForwardEntries file))"
proof -
  obtain file0 st1 where 1: "scanFile sourceFile st = (file0, st1)"
    by (cases "scanFile sourceFile st")
  from assms 1 have "callGraph st' = callGraph st1 \<and> fileForwardEntries file = fileForwardEntries file0"
    by (auto simp: scanSourceFile_def Let_def split: if_splits)
  with scanFile_forward [OF 1] show ?thesis by simp
qed

lemma scanFiles_forward:
  assumes "scanFiles framework sourceFiles st = (fileInfos, st')"
  shows "map_of (callGraph st') = map_of (callGraph st) ++ map_of (rev (forwardEntries fileInfos))"
  using assms unfolding scanFiles_def forwardEntries_def
  by (rule mapState_entries [rotated]) (rule scanSourceFile_forward)

lemma collectClass_callGraph:
  "callGraph (fst (collectClass cls acc)) = callGraph (fst acc)"
  by (auto simp: collectClass_def Let_def split: option.splits prod.splits)

lemma collectClassInfo_callGraph:
  "callGraph (collectClassInfo sourceFiles st) = callGraph st"
proof -
  have 1: "callGraph (fst (fold collectClass classes acc)) = callGraph (fst acc)"
    for classes acc
    by (induction classes arbitrary: acc) (simp_all add: collectClass_callGraph)
  have 2: "callGraph (fst (fold (\<lambda>sourceFile. fold collectClass (sf_classes sourceFile)) files acc))
             = callGraph (fst acc)" for files acc
    by (induction files arbitrary: acc) (simp_all add: 1)
  show ?thesis
    using 2 [of sourceFiles "(st, [])"] by (auto simp: collectClassInfo_def split: prod.splits)
qed

lemma fileForwardEntries_backfill:
  "fileForwardEntries (file\<lparr>file_classes := map (backfillClass g) (file_classes file)\<rparr>)
     = fileForwardEntries file"
  by (simp add: fileForwardEntries_def comp_def)

lemma forwardEntries_buildCallGraph [simp]:
  "forwardEntries (buildCallGraph fileInfos st) = forwardEntries fileInfos"
  by (simp add: forwardEntries_def buildCallGraph_def fileForwardEntries_backfill comp_def)

lemma scanModel_forward:
  "map_of (callGraph (snd (scanModel framework sourceFiles)))
     = map_of (rev (forwardEntries (fst (scanModel framework sourceFiles))))"
proof -
  define st1 where "st1 = collectClassInfo sourceFiles initialState"
  obtain fileInfos st2 where s: "scanFiles framework sourceFiles st1 = (fileInfos, st2)"
    by (cases "scanFiles framework sourceFiles st1")
  have m: "scanModel framework sourceFiles
             = (buildCallGraph fileInfos (resolveCrossFileCalls fileInfos st2),
                resolveCrossFileCalls fileInfos st2)"
    using s by (simp add: scanModel_def st1_def Let_def)
  have "callGraph st1 = []"
    by (simp add: st1_def collectClassInfo_callGraph initialState_def)
  with scanFiles_forward [OF s] show ?thesis
    unfolding m by (simp add: resolveCrossFileCalls_def)
qed

subsection \<open>Keys of the reverse graph\<close>

lemma fullNameOf_dot [simp]: "CHR ''.'' \<in> set (fullNameOf a b)"
  by (simp add: fullNameOf_def)

lemma rule_shape:
  assumes "r = None \<or> (\<exists>a b. r = Some (fullNameOf a b))"
  shows "simpleRule st bs call r = None \<or> (\<exists>a b. simpleRule st bs call r = Some (fullNameOf a b))"
    and "nestedRule st bs call r = None \<or> (\<exists>a b. nestedRule st bs call r = Some (fullNameOf a b))"
    and "injectRule st call r = None \<or> (\<exists>a b. injectRule st call r = Some (fullNameOf a b))"
    and "localVarRule st bs call r = None \<or> (\<exists>a b. localVarRule st bs call r = Some (fullNameOf a b))"
  using assms
  by (auto simp: simpleRule_def nestedRule_def injectRule_def localVarRule_def
      split: option.splits prod.splits if_splits)

lemma truthy_Some: "truthy r = Some x \<Longrightarrow> r = Some x"
  by (auto simp: truthy_def split: option.splits if_splits)

lemma resolveMethodCall_shape:
  "resolveMethodCall st bs call = Some callee \<Longrightarrow> \<exists>a b. callee = fullNameOf a b"
proof -
  assume a: "resolveMethodCall st bs call = Some callee"
  have "simpleRule st bs call None = None \<or> (\<exists>a b. simpleRule st bs call None = Some (fullNameOf a b))"
    by (rule rule_shape) simp
  then have "nestedRule st bs call (simpleRule st bs call None) = None
      \<or> (\<exists>a b. nestedRule st bs call (simpleRule st bs call None) = Some (fullNameOf a b))"
    by (rule rule_shape)
  then have "injectRule st call (nestedRule st bs call (simpleRule st bs call None)) = None
      \<or> (\<exists>a b. injectRule st call (nestedRule st bs call (simpleRule st bs call None)) = Some (fullNameOf a b))"
    by (rule rule_shape)
  with truthy_Some [OF a [unfolded resolveMethodCall_def]] show ?thesis by auto
qed

lemma resolveFunctionCall_shape:
  "resolveFunctionCall st bs call = Some callee \<Longrightarrow> \<exists>a b. callee = fullNameOf a b"
proof -
  assume a: "resolveFunctionCall st bs call = Some callee"
  have "injectRule st call None = None \<or> (\<exists>a b. injectRule st call None = Some (fullNameOf a b))"
    by (rule rule_shape) simp
  then have "localVarRule st bs call (injectRule st call None) = None
      \<or> (\<exists>a b. localVarRule st bs call (injectRule st call None) = Some (fullNameOf a b))"
    by (rule rule_shape)
  with truthy_Some [OF a [unfolded resolveFunctionCall_def]] show ?thesis by auto
qed

lemma resolved_key_dot: "(k, v) \<in> resolvedEdges st fileInfos \<Longrightarrow> CHR ''.'' \<in> set k"
  by (auto simp: resolvedEdges_def fileResolvedEdges_def methodResolvedEdges_def
      functionResolvedEdges_def dest!: resolveMethodCall_shape resolveFunctionCall_shape)

lemma binding_key_dot: "(k, v) \<in> bindingEdges className relativePath binding \<Longrightarrow> CHR ''.'' \<in> set k"
  by (auto simp: bindingEdges_def split: option.splits)

lemma file_template_key_dot: "(k, v) \<in> fileTemplateEdges file \<Longrightarrow> CHR ''.'' \<in> set k"
  by (cases "file_templateBindings file"; cases "file_classes file")
     (auto simp: fileTemplateEdges_def dest: binding_key_dot split: if_splits)

lemma template_key_dot: "(k, v) \<in> templateEdges fileInfos \<Longrightarrow> CHR ''.'' \<in> set k"
  by (auto simp: templateEdges_def dest: file_template_key_dot)

lemma noCallers_edges: "\<not> noCallers g n \<longleftrightarrow> (\<exists>v. (n, v) \<in> edges g)"
  by (cases "mapGet g n") (simp_all add: noCallers_def edges_def hasEdge_def ex_in_conv)



subsection \<open>The two call graphs\<close>

text \<open>
  C1, as the code has it. After a scan the forward graph is the map of the entries
  written in scan order, a later entry replacing an earlier one under the same caller
  identity; when the identities are pairwise distinct, every method and function has its
  extracted call texts under its identity. The edges of the reverse graph are exactly
  the raw call texts of the class methods (call text as key, method as caller), the
  edges synthesized from templates and the edges of successful resolution.
\<close>

theorem call_graphs_of_scan:
  "map_of (callGraph (stateOf framework sourceFiles))
     = map_of (rev (forwardEntries (modelOf framework sourceFiles)))
   \<and> (distinct (map fst (forwardEntries (modelOf framework sourceFiles))) \<longrightarrow>
        (\<forall>(caller, calls) \<in> set (forwardEntries (modelOf framework sourceFiles)).
           mapGet (callGraph (stateOf framework sourceFiles)) caller = Some calls))
   \<and> edges (reverseCallGraph (stateOf framework sourceFiles))
       = rawEdges (modelOf framework sourceFiles)
         \<union> templateEdges (modelOf framework sourceFiles)
         \<union> resolvedEdges (stateOf framework sourceFiles) (modelOf framework sourceFiles)"
proof -
  have "mapGet (callGraph (stateOf framework sourceFiles)) caller = Some calls"
    if "distinct (map fst (forwardEntries (modelOf framework sourceFiles)))"
      "(caller, calls) \<in> set (forwardEntries (modelOf framework sourceFiles))" for caller calls
  proof -
    from that have "map_of (rev (forwardEntries (modelOf framework sourceFiles))) caller = Some calls"
      by (intro map_of_is_SomeI) (simp_all add: distinct_rev rev_map [symmetric])
    then show ?thesis by (simp add: mapGet_def scanModel_forward)
  qed
  with scanModel_forward scanModel_edges show ?thesis by blast
qed

theorem call_graphs_of_scan_witness:
  "mapGet (callGraph (stateOf Angular demoProject)) ''A.run'' = Some [''this._b.c.m'', ''helper'']
   \<and> (''C.m'', ''A.run'') \<in> rawEdges (modelOf Angular demoProject)
         \<union> templateEdges (modelOf Angular demoProject)
         \<union> resolvedEdges (stateOf Angular demoProject) (modelOf Angular demoProject)"
proof -
  have d: "distinct (map fst (forwardEntries (modelOf Angular demoProject)))"
    by code_simp
  have m: "(''A.run'', [''this._b.c.m'', ''helper'']) \<in> set (forwardEntries (modelOf Angular demoProject))"
    by code_simp
  have e: "hasEdge (reverseCallGraph (stateOf Angular demoProject)) ''C.m'' ''A.run''"
    by code_simp
  then have "(''C.m'', ''A.run'') \<in> edges (reverseCallGraph (stateOf Angular demoProject))"
    by (simp add: edges_def)
  with call_graphs_of_scan [of Angular demoProject] d m show ?thesis
    by auto
qed

text \<open>
  The claim as stated fails: the raw call text \<open>helper\<close> of \<open>A.run\<close> is an edge of
  the reverse graph that neither resolution nor a template produced; and of two functions
  named \<open>init\<close> the forward graph keeps the call texts of the second only.
\<close>

theorem reverse_graph_counterexample:
  "(''helper'', ''A.run'') \<in> edges (reverseCallGraph (stateOf Angular demoProject))
   \<and> (''helper'', ''A.run'') \<notin> resolvedEdges (stateOf Angular demoProject) (modelOf Angular demoProject)
                                \<union> templateEdges (modelOf Angular demoProject)
   \<and> callGraph (stateOf Angular shadowProject) = [(''init'', [''b''])]
   \<and> map function_calls (concat (map file_functions (modelOf Angular shadowProject))) = [[''a''], [''b'']]"
proof -
  have e: "hasEdge (reverseCallGraph (stateOf Angular demoProject)) ''helper'' ''A.run''"
    by code_simp
  then have 1: "(''helper'', ''A.run'') \<in> edges (reverseCallGraph (stateOf Angular demoProject))"
    by (simp add: edges_def)
  have "CHR ''.'' \<notin> set ''helper''" by simp
  then have 2: "(''helper'', ''A.run'') \<notin> resolvedEdges (stateOf Angular demoProject) (modelOf Angular demoProject)
                                \<union> templateEdges (modelOf Angular demoProject)"
    using resolved_key_dot template_key_dot by blast
  have 3: "callGraph (stateOf Angular shadowProject) = [(''init'', [''b''])]"
    by code_simp
  have 4: "map function_calls (concat (map file_functions (modelOf Angular shadowProject))) = [[''a''], [''b'']]"
    by code_simp
  from 1 2 3 4 show ?thesis by blast
qed










subsection \<open>Template bindings\<close>

text \<open>
  C8. The edge synthesized from a template binding is keyed by the first class of the
  file, not by the class that carries the \<open>Component\<close> decorator. In a file with the
  classes \<open>Helper\<close> and then the component \<open>Cmp\<close>, whose template calls
  \<open>save()\<close>, the pass adds \<open>Helper.save\<close> and no edge for \<open>Cmp.save\<close>, and
  \<open>Cmp.save\<close> is reported dead.
\<close>

theorem template_edge_first_class:
  "file_templateBindings (hd (modelOf Angular templateProject))
     = Some [\<lparr> binding_type = Event, binding_expression = ''save()'' \<rparr>]
   \<and> map class_name (file_classes (hd (modelOf Angular templateProject))) = [''Helper'', ''Cmp'']
   \<and> reverseCallGraph (stateOf Angular templateProject) = [(''Helper.save'', [''template:cmp.ts''])]
   \<and> \<not> hasEdge (reverseCallGraph (stateOf Angular templateProject)) ''Cmp.save'' ''template:cmp.ts''
   \<and> map dead_fullName (detectDeadCode (stateOf Angular templateProject) (modelOf Angular templateProject))
       = [''Cmp.save'']"
  by code_simp

subsection \<open>Summary rankings\<close>

lemma ranking_length: "length (ranking count xs) \<le> 10"
  by (simp add: ranking_def)

lemma sortDesc_sorted: "sorted_wrt (\<lambda>a b. count b \<le> count a) (sortDesc count xs)"
proof -
  have "sorted (map (\<lambda>x. - int (count x)) (sort_key (\<lambda>x. - int (count x)) xs))"
    by (rule sorted_sort_key)
  then show ?thesis
    by (simp add: sortDesc_def sorted_map)
qed

lemma ranking_sorted: "sorted_wrt (\<lambda>a b. count b \<le> count a) (ranking count xs)"
  unfolding ranking_def by (rule sorted_wrt_take) (rule sortDesc_sorted)

lemma sortDesc_stable: "filter (\<lambda>e. count e = k) (sortDesc count xs) = filter (\<lambda>e. count e = k) xs"
  using sort_key_stable [of "\<lambda>x. - int (count x)" "- int k" xs] by (simp add: sortDesc_def)

lemma ranking_stable: "prefix (filter (\<lambda>e. count e = k) (ranking count xs)) (filter (\<lambda>e. count e = k) xs)"
proof -
  have "prefix (filter (\<lambda>e. count e = k) (take 10 (sortDesc count xs)))
               (filter (\<lambda>e. count e = k) (sortDesc count xs))"
    by (intro filter_mono_prefix take_is_prefix)
  then show ?thesis by (simp add: ranking_def sortDesc_stable)
qed

lemma ranking_subset: "set (ranking count xs) \<subseteq> set xs"
  using set_take_subset [of 10 "sortDesc count xs"] by (simp add: ranking_def sortDesc_def)

text \<open>
  C6, as the code has it. Each of the four rankings has at most ten entries, is sorted
  by descending count, and keeps entries of equal count in the order of its input (the
  entries of the count maps, the classes and the files in scan order). The rankings of
  methods and of services hold no entry of count zero; the rankings of classes and of
  files are not filtered.
\<close>

theorem summary_rankings:
  "(length (mostCalledMethods (generateSummary st fileInfos)) \<le> 10
    \<and> sorted_wrt (\<lambda>a b. snd b \<le> snd a) (mostCalledMethods (generateSummary st fileInfos))
    \<and> (\<forall>k. prefix (filter (\<lambda>e. snd e = k) (mostCalledMethods (generateSummary st fileInfos)))
                   (filter (\<lambda>e. snd e = k) (methodCallCounts fileInfos)))
    \<and> (\<forall>e \<in> set (mostCalledMethods (generateSummary st fileInfos)). 0 < snd e))
   \<and> (length (mostUsedServices (generateSummary st fileInfos)) \<le> 10
    \<and> sorted_wrt (\<lambda>a b. snd b \<le> snd a) (mostUsedServices (generateSummary st fileInfos))
    \<and> (\<forall>k. prefix (filter (\<lambda>e. snd e = k) (mostUsedServices (generateSummary st fileInfos)))
                   (filter (\<lambda>e. snd e = k) (serviceUsageCounts st fileInfos)))
    \<and> (\<forall>e \<in> set (mostUsedServices (generateSummary st fileInfos)). 0 < snd e))
   \<and> (length (largestClasses (generateSummary st fileInfos)) \<le> 10
    \<and> sorted_wrt (\<lambda>a b. fst (snd b) \<le> fst (snd a)) (largestClasses (generateSummary st fileInfos))
    \<and> (\<forall>k. prefix (filter (\<lambda>e. fst (snd e) = k) (largestClasses (generateSummary st fileInfos)))
                   (filter (\<lambda>e. fst (snd e) = k) (classSizes fileInfos))))
   \<and> (length (filesByImports (generateSummary st fileInfos)) \<le> 10
    \<and> sorted_wrt (\<lambda>a b. snd b \<le> snd a) (filesByImports (generateSummary st fileInfos))
    \<and> (\<forall>k. prefix (filter (\<lambda>e. snd e = k) (filesByImports (generateSummary st fileInfos)))
                   (filter (\<lambda>e. snd e = k) (importCounts fileInfos))))"
proof -
  have pos: "prefix (filter (\<lambda>e. snd e = k) (ranking snd (filter (\<lambda>e. snd e > 0) xs)))
                    (filter (\<lambda>e. snd e = k) xs)" for k and xs :: "(string \<times> nat) list"
  proof (cases "k > 0")
    case True
    then have "filter (\<lambda>e. snd e = k) (filter (\<lambda>e. snd e > 0) xs) = filter (\<lambda>e. snd e = k) xs"
      by (auto intro: filter_cong)
    with ranking_stable [of snd k "filter (\<lambda>e. snd e > 0) xs"] show ?thesis by simp
  next
    case False
    then have "filter (\<lambda>e. snd e = k) (filter (\<lambda>e. snd e > 0) xs) = []"
      by (auto simp: filter_empty_conv)
    with ranking_stable [of snd k "filter (\<lambda>e. snd e > 0) xs"] show ?thesis by simp
  qed
  have nz: "\<forall>e \<in> set (ranking snd (filter (\<lambda>e. snd e > 0) xs)). 0 < snd e"
    for xs :: "(string \<times> nat) list"
    using ranking_subset [of snd "filter (\<lambda>e. snd e > 0) xs"] by auto
  show ?thesis
    unfolding generateSummary_def SummaryStats.simps
    by (intro conjI allI ranking_length ranking_sorted ranking_stable pos nz)
qed

theorem summary_rankings_witness:
  "(''C.m'', 1) \<in> set (mostCalledMethods (generateSummary (stateOf Angular demoProject) (modelOf Angular demoProject)))
   \<and> (0::nat) < snd (''C.m'', 1::nat)
   \<and> length (mostCalledMethods (generateSummary (stateOf Angular demoProject) (modelOf Angular demoProject))) \<le> 10"
proof -
  have "(''C.m'', 1) \<in> set (mostCalledMethods (generateSummary (stateOf Angular demoProject) (modelOf Angular demoProject)))"
    by code_simp
  with summary_rankings [of "stateOf Angular demoProject" "modelOf Angular demoProject"]
  show ?thesis by auto
qed

text \<open>
  The claim as stated fails for the rankings of classes and of files: a class without
  methods in a file without imports is listed in both with count zero.
\<close>

theorem summary_zero_count_counterexample:
  "(''Empty'', 0, ''e.ts'')
     \<in> set (largestClasses (generateSummary (stateOf Angular emptyClassProject) (modelOf Angular emptyClassProject)))
   \<and> (''e.ts'', 0)
     \<in> set (filesByImports (generateSummary (stateOf Angular emptyClassProject) (modelOf Angular emptyClassProject)))"
  by code_simp

subsection \<open>Circular dependencies\<close>

lemma subseq_distinct: "subseq xs ys \<Longrightarrow> distinct ys \<Longrightarrow> distinct xs"
  by (auto simp: subseq_conv_nths)

lemma subseq_set: "subseq xs ys \<Longrightarrow> set xs \<subseteq> set ys"
  by (metis subseq_conv_nths set_nths_subset)

lemma subseq_head:
  assumes "subseq xs (z # zs)" "z \<notin> set zs"
  shows "(z \<in> set xs \<longrightarrow> (\<exists>xs'. xs = z # xs' \<and> subseq xs' zs)) \<and> (z \<notin> set xs \<longrightarrow> subseq xs zs)"
proof (cases xs)
  case Nil
  then show ?thesis by simp
next
  case (Cons a xs')
  show ?thesis
  proof (cases "a = z")
    case True
    with Cons assms show ?thesis by simp
  next
    case False
    with Cons assms(1) have s: "subseq xs zs" by (simp add: subseq_Cons2_neq)
    with subseq_set assms(2) have "z \<notin> set xs" by blast
    with s show ?thesis by simp
  qed
qed

lemma subseq_same_set:
  "distinct zs \<Longrightarrow> subseq xs zs \<Longrightarrow> subseq ys zs \<Longrightarrow> set xs = set ys \<Longrightarrow> xs = ys"
proof (induction zs arbitrary: xs ys)
  case Nil
  then show ?case by (auto dest!: subseq_set)
next
  case (Cons z zs)
  from Cons.prems have nz: "z \<notin> set zs" and d: "distinct zs" by simp_all
  note hx = subseq_head [OF Cons.prems(2) nz] and hy = subseq_head [OF Cons.prems(3) nz]
  show ?case
  proof (cases "z \<in> set xs")
    case True
    with hx obtain xs' where x: "xs = z # xs'" "subseq xs' zs" by blast
    from True Cons.prems(4) hy obtain ys' where y: "ys = z # ys'" "subseq ys' zs" by blast
    from x(2) y(2) nz subseq_set have "z \<notin> set xs'" "z \<notin> set ys'" by blast+
    with Cons.prems(4) x(1) y(1) have "set xs' = set ys'" by auto
    with Cons.IH [OF d x(2) y(2)] x(1) y(1) show ?thesis by simp
  next
    case False
    with hx hy Cons.prems(4) have "subseq xs zs" "subseq ys zs" by auto
    with Cons.IH [OF d] Cons.prems(4) show ?thesis by blast
  qed
qed

lemma setAdd_new: "x \<notin> set xs \<Longrightarrow> setAdd x xs = xs @ [x]"
  by (simp add: setAdd_def)

lemma length_le_card: "finite N \<Longrightarrow> distinct p \<Longrightarrow> set p \<subseteq> N \<Longrightarrow> length p \<le> card N"
  by (metis card_mono distinct_card)

lemma cycleOf_mono: "cycleOf vis e \<Longrightarrow> prefix vis vis' \<Longrightarrow> cycleOf vis' e"
  unfolding cycleOf_def by (meson prefix_imp_subseq subseq_order.trans)

lemma dfsInv_stack [simp]: "dfsInv N (s\<lparr>recursionStack := r\<rparr>) = dfsInv N s"
  by (simp add: dfsInv_def)

lemma dfsInv_visit:
  assumes "dfsInv N s" "node \<in> N" "node \<notin> set (visited s)"
  shows "dfsInv N (s\<lparr>visited := visited s @ [node]\<rparr>)"
  using assms unfolding dfsInv_def
  by (auto intro: cycleOf_mono [where vis = "visited s"])

lemma recordCycle_fields [simp]:
  "visited (recordCycle path dep s) = visited s"
  "recursionStack (recordCycle path dep s) = recursionStack s"
  by (simp_all add: recordCycle_def Let_def)

lemma dropWhile_cycle:
  assumes "dep \<in> set path"
  shows "dropWhile (\<lambda>n. n \<noteq> dep) path \<noteq> [] \<and> hd (dropWhile (\<lambda>n. n \<noteq> dep) path) = dep
         \<and> subseq (dropWhile (\<lambda>n. n \<noteq> dep) path) path"
proof -
  from assms have ne: "dropWhile (\<lambda>n. n \<noteq> dep) path \<noteq> []" by simp
  from hd_dropWhile [OF ne] have "hd (dropWhile (\<lambda>n. n \<noteq> dep) path) = dep" by simp
  moreover have "subseq (dropWhile (\<lambda>n. n \<noteq> dep) path) path"
    by (intro suffix_imp_subseq suffix_dropWhile)
  ultimately show ?thesis using ne by simp
qed

lemma dfsInv_recordCycle:
  assumes "dfsInv N s" "dep \<in> set path" "subseq path (visited s)"
  shows "dfsInv N (recordCycle path dep s)"
proof -
  let ?c = "dropWhile (\<lambda>n. n \<noteq> dep) path"
  from dropWhile_cycle [OF assms(2)] assms(3)
  have c: "?c \<noteq> []" "hd ?c = dep" "subseq ?c (visited s)"
    by (auto intro: subseq_order.trans)
  then have "cycleOf (visited s) (circularEntry (?c @ [dep]))"
    unfolding cycleOf_def circularEntry_def by auto
  with assms(1,2) show ?thesis
    by (auto simp: dfsInv_def recordCycle_def Let_def list_ex_iff circularEntry_def)
qed

lemma dfs_total:
  fixes N :: "string set"
  assumes "finite N" and "\<And>k ds. mapGet g k = Some ds \<Longrightarrow> set ds \<subseteq> N"
  shows "dfsInv N s \<Longrightarrow> path \<noteq> [] \<Longrightarrow> last path = node \<Longrightarrow> node \<notin> set (visited s)
         \<Longrightarrow> node \<in> N \<Longrightarrow> recursionStack s = butlast path \<Longrightarrow> subseq (butlast path) (visited s)
         \<Longrightarrow> card N < length path + n
         \<Longrightarrow> \<exists>s'. dfs n g node path s = Some s' \<and> dfsInv N s' \<and> prefix (visited s) (visited s')
                 \<and> recursionStack s' = recursionStack s \<and> node \<in> set (visited s')"
    and "dfsInv N s \<Longrightarrow> recursionStack s = path \<Longrightarrow> subseq path (visited s) \<Longrightarrow> set deps \<subseteq> N
         \<Longrightarrow> card N \<le> length path + n
         \<Longrightarrow> \<exists>s'. dfsDeps n g path deps s = Some s' \<and> dfsInv N s' \<and> prefix (visited s) (visited s')
                 \<and> recursionStack s' = recursionStack s"
  using assms
proof (induction n g node path s and n g path deps s rule: dfs_dfsDeps.induct)
  case (1 g node path s)
  from "1.prems" have d: "distinct (visited s)" and v: "set (visited s) \<subseteq> N"
    by (simp_all add: dfsInv_def)
  from "1.prems" have p: "path = butlast path @ [node]" by (metis append_butlast_last_id)
  from "1.prems" subseq_set have b: "set (butlast path) \<subseteq> set (visited s)" by blast
  with "1.prems" have "node \<notin> set (butlast path)" by blast
  moreover from "1.prems" d have "distinct (butlast path)" by (blast intro: subseq_distinct)
  ultimately have "distinct path" by (subst p) simp
  moreover from b v "1.prems" have "set path \<subseteq> N" by (subst p) auto
  ultimately have "length path \<le> card N" using "1.prems" by (blast intro: length_le_card)
  with "1.prems" show ?case by simp
next
  case (2 n g node path s)
  define s1 where "s1 = s\<lparr>visited := setAdd node (visited s),
                           recursionStack := setAdd node (recursionStack s)\<rparr>"
  from "2.prems" have d: "distinct (visited s)" and v: "set (visited s) \<subseteq> N"
    by (simp_all add: dfsInv_def)
  from "2.prems" have p: "path = butlast path @ [node]" by (metis append_butlast_last_id)
  from "2.prems" subseq_set have b: "set (butlast path) \<subseteq> set (visited s)" by blast
  with "2.prems" have nb: "node \<notin> set (butlast path)" by blast
  have vis1: "visited s1 = visited s @ [node]"
    using "2.prems" by (simp add: s1_def setAdd_new)
  have stack1: "recursionStack s1 = path"
    using "2.prems" nb p by (simp add: s1_def setAdd_new)
  have inv1: "dfsInv N s1"
    using dfsInv_visit [OF "2.prems"(1) "2.prems"(5) "2.prems"(4)] "2.prems"(4)
    by (simp add: s1_def setAdd_new dfsInv_def)
  have sub1: "subseq path (visited s1)"
    using "2.prems"(7) by (subst p) (simp add: vis1)
  have rem: "removeAll node path = butlast path"
    using nb by (subst p) simp
  have bound: "card N \<le> length path + n"
    using "2.prems" by simp
  show ?case
  proof (cases "mapGet g node")
    case None
    then have "dfs (Suc n) g node path s = Some (s1\<lparr>recursionStack := removeAll node (recursionStack s1)\<rparr>)"
      by (simp add: s1_def Let_def)
    with inv1 vis1 stack1 rem "2.prems" show ?thesis by simp
  next
    case (Some deps)
    with "2.prems" have "set deps \<subseteq> N" by blast
    have "\<exists>s'. dfsDeps n g path deps s1 = Some s' \<and> dfsInv N s' \<and> prefix (visited s1) (visited s')
                 \<and> recursionStack s' = recursionStack s1"
      using inv1 stack1 sub1 \<open>set deps \<subseteq> N\<close> bound "2.prems"(9,10) Some
      by (intro "2.IH") (simp_all add: s1_def)
    then obtain s2 where s2: "dfsDeps n g path deps s1 = Some s2" "dfsInv N s2"
      "prefix (visited s1) (visited s2)" "recursionStack s2 = recursionStack s1"
      by blast
    from Some s2(1) have "dfs (Suc n) g node path s = Some (s2\<lparr>recursionStack := removeAll node (recursionStack s2)\<rparr>)"
      by (simp add: s1_def Let_def)
    moreover from s2(3) vis1 have "prefix (visited s) (visited s2)" "node \<in> set (visited s2)"
      by (auto simp: prefix_def)
    ultimately show ?thesis
      using s2 stack1 rem "2.prems" by simp
  qed
next
  case (3 n g path s)
  then show ?case by simp
next
  case (4 n g path dep deps s)
  from "4.prems" have d: "distinct (visited s)" and v: "set (visited s) \<subseteq> N"
    by (simp_all add: dfsInv_def)
  from "4.prems" have dN: "dep \<in> N" "set deps \<subseteq> N" by simp_all
  show ?case
  proof (cases "dep \<in> set (visited s)")
    case False
    have "\<exists>s'. dfs n g dep (path @ [dep]) s = Some s' \<and> dfsInv N s' \<and> prefix (visited s) (visited s')
                 \<and> recursionStack s' = recursionStack s \<and> dep \<in> set (visited s')"
      using "4.prems" False dN by (intro "4.IH"(1)) simp_all
    then obtain s1 where s1: "dfs n g dep (path @ [dep]) s = Some s1" "dfsInv N s1"
      "prefix (visited s) (visited s1)" "recursionStack s1 = recursionStack s"
      by blast
    from s1(3) "4.prems"(3) have sub: "subseq path (visited s1)"
      by (meson prefix_imp_subseq subseq_order.trans)
    have "\<exists>s'. dfsDeps n g path deps s1 = Some s' \<and> dfsInv N s' \<and> prefix (visited s1) (visited s')
                 \<and> recursionStack s' = recursionStack s1"
      using "4.prems" False dN s1 sub by (intro "4.IH"(2)) simp_all
    then obtain s2 where s2: "dfsDeps n g path deps s1 = Some s2" "dfsInv N s2"
      "prefix (visited s1) (visited s2)" "recursionStack s2 = recursionStack s1"
      by blast
    from False s1(1) s2(1) have "dfsDeps n g path (dep # deps) s = Some s2" by simp
    moreover from s1(3) s2(3) have "prefix (visited s) (visited s2)" by (rule prefix_order.trans)
    ultimately show ?thesis using s2 s1 by simp
  next
    case True
    show ?thesis
    proof (cases "dep \<in> set (recursionStack s)")
      case onstack: True
      with "4.prems" have "dep \<in> set path" by simp
      with "4.prems" have inv: "dfsInv N (recordCycle path dep s)"
        by (intro dfsInv_recordCycle) simp_all
      have "\<exists>s'. dfsDeps n g path deps (recordCycle path dep s) = Some s' \<and> dfsInv N s'
                 \<and> prefix (visited (recordCycle path dep s)) (visited s')
                 \<and> recursionStack s' = recursionStack (recordCycle path dep s)"
        using "4.prems" True onstack dN inv by (intro "4.IH"(3)) simp_all
      with True onstack show ?thesis by simp
    next
      case False
      have "\<exists>s'. dfsDeps n g path deps s = Some s' \<and> dfsInv N s' \<and> prefix (visited s) (visited s')
                 \<and> recursionStack s' = recursionStack s"
        using "4.prems" True False dN by (intro "4.IH"(4)) simp_all
      with True False show ?thesis by simp
    qed
  qed
qed

lemma dfsAll_total:
  fixes N :: "string set"
  assumes "finite N" and "\<And>k ds. mapGet g k = Some ds \<Longrightarrow> set ds \<subseteq> N"
  shows "dfsInv N s \<Longrightarrow> recursionStack s = [] \<Longrightarrow> set files \<subseteq> N \<Longrightarrow> card N \<le> n
         \<Longrightarrow> \<exists>s'. dfsAll n g files s = Some s' \<and> dfsInv N s' \<and> recursionStack s' = []"
proof (induction files arbitrary: s)
  case Nil
  then show ?case by simp
next
  case (Cons f fs)
  show ?case
  proof (cases "f \<in> set (visited s)")
    case True
    with Cons show ?thesis by simp
  next
    case False
    have "\<exists>s'. dfs n g f [f] s = Some s' \<and> dfsInv N s' \<and> prefix (visited s) (visited s')
                 \<and> recursionStack s' = recursionStack s \<and> f \<in> set (visited s')"
      using Cons.prems False assms by (intro dfs_total(1) [where N = N]) simp_all
    then obtain s1 where s1: "dfs n g f [f] s = Some s1" "dfsInv N s1" "recursionStack s1 = []"
      using Cons.prems by auto
    from Cons.IH [OF s1(2,3)] Cons.prems obtain s2 where
      "dfsAll n g fs s1 = Some s2" "dfsInv N s2" "recursionStack s2 = []"
      by auto
    with False s1(1) show ?thesis by simp
  qed
qed

lemma importNodes_closed:
  "mapGet g k = Some ds \<Longrightarrow> set ds \<subseteq> set (importNodes g)"
  by (auto simp: mapGet_def importNodes_def dest!: map_of_SomeD intro!: bexI [where x = "(k, ds)"])

lemma dfsInv_initial: "dfsInv N \<lparr> visited = [], recursionStack = [], cycles = [] \<rparr>"
  by (simp add: dfsInv_def)


lemma no_rotations:
  assumes "dfsInv N s" "i < length (cycles s)" "j < length (cycles s)" "i \<noteq> j"
  shows "butlast (circ_cycle (cycles s ! j)) \<noteq> rotate n (butlast (circ_cycle (cycles s ! i)))"
proof
  assume r: "butlast (circ_cycle (cycles s ! j)) = rotate n (butlast (circ_cycle (cycles s ! i)))"
  from assms have "cycleOf (visited s) (cycles s ! i)" "cycleOf (visited s) (cycles s ! j)"
    by (simp_all add: dfsInv_def)
  then obtain ci cj where
    ci: "ci \<noteq> []" "circ_cycle (cycles s ! i) = ci @ [hd ci]" "subseq ci (visited s)" and
    cj: "cj \<noteq> []" "circ_cycle (cycles s ! j) = cj @ [hd cj]" "subseq cj (visited s)"
    unfolding cycleOf_def by blast
  from r ci(2) cj(2) have "cj = rotate n ci" by simp
  then have "set cj = set ci" by simp
  with subseq_same_set [OF _ cj(3) ci(3)] assms(1) have "cj = ci"
    by (simp add: dfsInv_def)
  with ci(2) cj(2) have "cycleKey (circ_cycle (cycles s ! i)) = cycleKey (circ_cycle (cycles s ! j))"
    by simp
  moreover from assms have "distinct (map (\<lambda>e. cycleKey (circ_cycle e)) (cycles s))"
    by (simp add: dfsInv_def)
  ultimately show False
    using assms(2,3,4) by (auto simp: distinct_conv_nth)
qed

lemma two_files:
  assumes "x \<noteq> y" "file_relativePath fx = x" "file_relativePath fy = y"
    "fileDeps paths fx = [y]" "fileDeps paths fy = [x]"
  shows "detectCircularDependencies paths [fx, fy] = Some [circularEntry [x, y, x]]"
proof -
  have g: "importGraphOf paths [fx, fy] = [(x, [y]), (y, [x])]"
    using assms by (simp add: importGraphOf_def mapSet_def)
  show ?thesis
    unfolding detectCircularDependencies_def g Let_def
    using assms(1)
    by (simp add: importNodes_def mapGet_def setAdd_def recordCycle_def Let_def)
qed

lemma arrow_head:
  assumes "\<not> sublist ''->'' y" "''->'' @ r1 = y @ ''->'' @ r2"
  shows "y = []"
proof (cases y)
  case Nil
  then show ?thesis .
next
  case (Cons c y')
  with assms(2) have c: "c = CHR ''-''" and r: "CHR ''>'' # r1 = y' @ ''->'' @ r2" by simp_all
  from r have "y' \<noteq> []" by auto
  then obtain d y'' where y': "y' = d # y''" by (cases y') auto
  with r have "d = CHR ''>''" by simp
  with c y' Cons have "prefix ''->'' y" by simp
  with assms(1) show ?thesis by (blast dest: prefix_imp_sublist)
qed

lemma arrow_unique:
  "\<not> sublist ''->'' x \<Longrightarrow> \<not> sublist ''->'' y \<Longrightarrow> x @ ''->'' @ r1 = y @ ''->'' @ r2
     \<Longrightarrow> x = y \<and> r1 = r2"
proof (induction x arbitrary: y)
  case Nil
  from Nil.prems(3) have "''->'' @ r1 = y @ ''->'' @ r2" by simp
  from arrow_head [OF Nil.prems(2) this] have "y = []" .
  with Nil.prems(3) show ?case by simp
next
  case (Cons c x')
  show ?case
  proof (cases y)
    case Nil
    with Cons.prems(3) have "''->'' @ r2 = (c # x') @ ''->'' @ r1" by simp
    from arrow_head [OF Cons.prems(1) this] show ?thesis by simp
  next
    case (Cons d y')
    with Cons.prems have "\<not> sublist ''->'' x'" "\<not> sublist ''->'' y'" "c = d"
      "x' @ ''->'' @ r1 = y' @ ''->'' @ r2"
      by (simp_all add: sublist_Cons_right)
    with Cons.IH [of y'] Cons show ?thesis by simp
  qed
qed

lemma joinWith_arrow_inj:
  "xs \<noteq> [] \<Longrightarrow> ys \<noteq> [] \<Longrightarrow> \<forall>x \<in> set xs \<union> set ys. \<not> sublist ''->'' x
     \<Longrightarrow> joinWith ''->'' xs = joinWith ''->'' ys \<Longrightarrow> xs = ys"
proof (induction xs arbitrary: ys)
  case Nil
  then show ?case by simp
next
  case (Cons x xs)
  from Cons.prems(2) consider (One) y where "ys = [y]" | (More) y y2 ys' where "ys = y # y2 # ys'"
    by (metis neq_Nil_conv)
  then show ?case
  proof cases
    case One
    show ?thesis
    proof (cases xs)
      case Nil
      with One Cons.prems show ?thesis by simp
    next
      case (Cons x2 xs')
      with One Cons.prems(4) have "y = x @ ''->'' @ joinWith ''->'' (x2 # xs')" by simp
      then have "sublist ''->'' y" unfolding sublist_def by blast
      with Cons.prems(3) One show ?thesis by simp
    qed
  next
    case More
    show ?thesis
    proof (cases xs)
      case Nil
      with More Cons.prems(4) have "x = y @ ''->'' @ joinWith ''->'' (y2 # ys')" by simp
      then have "sublist ''->'' x" unfolding sublist_def by blast
      with Cons.prems(3) show ?thesis by simp
    next
      case (Cons x2 xs')
      with More Cons.prems(4)
      have e: "x @ ''->'' @ joinWith ''->'' (x2 # xs') = y @ ''->'' @ joinWith ''->'' (y2 # ys')"
        by simp
      from Cons.prems(3) More have "\<not> sublist ''->'' x" "\<not> sublist ''->'' y" by simp_all
      from arrow_unique [OF this e]
      have xy: "x = y" "joinWith ''->'' (x2 # xs') = joinWith ''->'' (y2 # ys')"
        by simp_all
      from Cons.prems(3) More Cons
      have "\<forall>x \<in> set xs \<union> set (y2 # ys'). \<not> sublist ''->'' x" by simp
      with Cons.IH [of "y2 # ys'"] xy(2) Cons have "xs = y2 # ys'" by simp
      with xy(1) More show ?thesis by simp
    qed
  qed
qed

lemma cycleKey_set:
  assumes "cycleKey a = cycleKey b" "a \<noteq> []" "b \<noteq> []" "\<forall>n \<in> set a \<union> set b. \<not> sublist ''->'' n"
  shows "set a = set b"
proof -
  from assms(2,3) have "sort a \<noteq> []" "sort b \<noteq> []"
    by (metis length_0_conv length_sort)+
  moreover from assms(4) have "\<forall>n \<in> set (sort a) \<union> set (sort b). \<not> sublist ''->'' n" by simp
  ultimately have "sort a = sort b"
    using assms(1) unfolding cycleKey_def by (rule joinWith_arrow_inj)
  then have "set (sort a) = set (sort b)" by simp
  then show ?thesis by simp
qed


lemma dfs_result:
  fixes N :: "string set"
  assumes "finite N" and "\<And>k ds. mapGet g k = Some ds \<Longrightarrow> set ds \<subseteq> N"
    and "dfsInv N s" "path \<noteq> []" "last path = node" "node \<notin> set (visited s)" "node \<in> N"
    "recursionStack s = butlast path" "subseq (butlast path) (visited s)" "card N < length path + n"
    and "dfs n g node path s = Some s'"
  shows "dfsInv N s' \<and> prefix (visited s) (visited s') \<and> recursionStack s' = recursionStack s
         \<and> node \<in> set (visited s')"
  using dfs_total(1) [OF assms(1,2,3,4,5,6,7,8,9,10), of g] assms(11) by auto

lemma dfsDeps_result:
  fixes N :: "string set"
  assumes "finite N" and "\<And>k ds. mapGet g k = Some ds \<Longrightarrow> set ds \<subseteq> N"
    and "dfsInv N s" "recursionStack s = path" "subseq path (visited s)" "set deps \<subseteq> N"
    "card N \<le> length path + n"
    and "dfsDeps n g path deps s = Some s'"
  shows "dfsInv N s' \<and> prefix (visited s) (visited s') \<and> recursionStack s' = recursionStack s"
  using dfs_total(2) [OF assms(1,2,3,4,5,6,7), of g] assms(8) by auto

lemma keyRecorded_mono:
  "keyRecorded s c \<Longrightarrow> set (cycles s) \<subseteq> set (cycles s') \<Longrightarrow> keyRecorded s' c"
  unfolding keyRecorded_def by blast

lemma edgeInv_mono:
  assumes "edgeInv N g s" "cycles s' = cycles s" "\<And>a. finishedNode s' a \<Longrightarrow> finishedNode s a"
  shows "edgeInv N g s'"
  using assms unfolding edgeInv_def keyRecorded_def by metis

lemma last_dropWhile_mem:
  assumes "dep \<in> set path"
  shows "last (dropWhile (\<lambda>n. n \<noteq> dep) path) = last path"
proof -
  from assms have ne: "dropWhile (\<lambda>n. n \<noteq> dep) path \<noteq> []" by simp
  from last_appendR [OF ne, of "takeWhile (\<lambda>n. n \<noteq> dep) path"] show ?thesis by simp
qed

lemma successively_dropWhile:
  "successively P xs \<Longrightarrow> successively P (dropWhile Q xs)"
  by (metis successively_append_iff takeWhile_dropWhile_id)

lemma edgeInv_recordCycle:
  assumes "edgeInv N g s" "distinct (visited s)" "dep \<in> set path" "subseq path (visited s)"
    "successively (hasEdge g) path" "hasEdge g (last path) dep"
  shows "edgeInv N g (recordCycle path dep s)
         \<and> set (cycles s) \<subseteq> set (cycles (recordCycle path dep s))
         \<and> keyRecorded (recordCycle path dep s) (dropWhile (\<lambda>n. n \<noteq> dep) path @ [dep])"
proof -
  let ?c = "dropWhile (\<lambda>n. n \<noteq> dep) path"
  let ?s = "recordCycle path dep s"
  from dropWhile_cycle [OF assms(3)] have c: "?c \<noteq> []" "hd ?c = dep" "subseq ?c path" by simp_all
  from c(3) assms(4) have "subseq ?c (visited s)" by (rule subseq_order.trans)
  with assms(2) have "distinct ?c" by (blast intro: subseq_distinct)
  moreover from assms(5) have "successively (hasEdge g) ?c" by (rule successively_dropWhile)
  moreover from assms(6) c(2) last_dropWhile_mem [OF assms(3)] have "hasEdge g (last ?c) (hd ?c)" by simp
  ultimately have ic: "importCycle g ?c" using c(1) by (simp add: importCycle_def)
  have sub: "set (cycles s) \<subseteq> set (cycles ?s)"
    by (auto simp: recordCycle_def Let_def)
  have new: "set (cycles ?s) \<subseteq> insert (circularEntry (?c @ [dep])) (set (cycles s))"
    using assms(3) by (auto simp: recordCycle_def Let_def)
  have key: "keyRecorded ?s (?c @ [dep])"
    using assms(3) unfolding keyRecorded_def
    by (auto simp: recordCycle_def Let_def list_ex_iff circularEntry_def)
  have fin: "finishedNode ?s a = finishedNode s a" for a
    by (simp add: finishedNode_def)
  have 1: "\<forall>e \<in> set (cycles ?s). importCycle g (butlast (circ_cycle e))"
  proof
    fix e assume "e \<in> set (cycles ?s)"
    with new have "e = circularEntry (?c @ [dep]) \<or> e \<in> set (cycles s)" by blast
    with ic assms(1) show "importCycle g (butlast (circ_cycle e))"
      by (auto simp: edgeInv_def circularEntry_def)
  qed
  have 2: "\<exists>c. c \<noteq> [] \<and> a \<in> set c \<and> b \<in> set c \<and> set c \<subseteq> N \<and> keyRecorded ?s c"
    if "hasEdge g a b" "hasEdge g b a" "finishedNode ?s a" for a b
  proof -
    from that assms(1) fin obtain c where "c \<noteq> []" "a \<in> set c" "b \<in> set c" "set c \<subseteq> N" "keyRecorded s c"
      unfolding edgeInv_def by blast
    with keyRecorded_mono [OF _ sub] show ?thesis by blast
  qed
  from 1 2 sub key show ?thesis unfolding edgeInv_def by blast
qed

lemma edgeInv_exit:
  assumes "edgeInv N g s2" "recursionStack s2 = path" "path \<noteq> []" "last path = node"
    and "\<And>b. hasEdge g node b \<Longrightarrow> hasEdge g b node
            \<Longrightarrow> \<exists>c. c \<noteq> [] \<and> node \<in> set c \<and> b \<in> set c \<and> set c \<subseteq> N \<and> keyRecorded s2 c"
  shows "edgeInv N g (s2\<lparr>recursionStack := butlast path\<rparr>)"
proof -
  let ?s = "s2\<lparr>recursionStack := butlast path\<rparr>"
  from assms(3,4) have p: "path = butlast path @ [node]" by (metis append_butlast_last_id)
  have k: "keyRecorded ?s c = keyRecorded s2 c" for c by (simp add: keyRecorded_def)
  have "\<exists>c. c \<noteq> [] \<and> a \<in> set c \<and> b \<in> set c \<and> set c \<subseteq> N \<and> keyRecorded ?s c"
    if h: "hasEdge g a b" "hasEdge g b a" "finishedNode ?s a" for a b
  proof (cases "a = node")
    case True
    with assms(5) h show ?thesis unfolding k by blast
  next
    case False
    from h(3) have "a \<in> set (visited s2)" "a \<notin> set (butlast path)" by (simp_all add: finishedNode_def)
    with False have "a \<notin> set path" by (subst p) simp
    with \<open>a \<in> set (visited s2)\<close> assms(2) have "finishedNode s2 a" by (simp add: finishedNode_def)
    with assms(1) h show ?thesis unfolding k edgeInv_def by blast
  qed
  moreover from assms(1) have "\<forall>e \<in> set (cycles ?s). importCycle g (butlast (circ_cycle e))"
    by (simp add: edgeInv_def)
  ultimately show ?thesis unfolding edgeInv_def by blast
qed

lemma dfs_edges:
  fixes N :: "string set"
  assumes "finite N" and "\<And>k ds. mapGet g k = Some ds \<Longrightarrow> set ds \<subseteq> N"
  shows "dfsInv N s \<Longrightarrow> path \<noteq> [] \<Longrightarrow> last path = node \<Longrightarrow> node \<notin> set (visited s)
         \<Longrightarrow> node \<in> N \<Longrightarrow> recursionStack s = butlast path \<Longrightarrow> subseq (butlast path) (visited s)
         \<Longrightarrow> card N < length path + n \<Longrightarrow> successively (hasEdge g) path \<Longrightarrow> edgeInv N g s
         \<Longrightarrow> dfs n g node path s = Some s'
         \<Longrightarrow> edgeInv N g s' \<and> set (cycles s) \<subseteq> set (cycles s')"
    and "dfsInv N s \<Longrightarrow> recursionStack s = path \<Longrightarrow> subseq path (visited s) \<Longrightarrow> set deps \<subseteq> N
         \<Longrightarrow> card N \<le> length path + n \<Longrightarrow> path \<noteq> [] \<Longrightarrow> successively (hasEdge g) path
         \<Longrightarrow> \<forall>d \<in> set deps. hasEdge g (last path) d \<Longrightarrow> edgeInv N g s
         \<Longrightarrow> dfsDeps n g path deps s = Some s'
         \<Longrightarrow> edgeInv N g s' \<and> set (cycles s) \<subseteq> set (cycles s') \<and> set deps \<subseteq> set (visited s')
             \<and> (\<forall>d \<in> set deps. d \<in> set path
                   \<longrightarrow> keyRecorded s' (dropWhile (\<lambda>n. n \<noteq> d) path @ [d]))"
  using assms
proof (induction n g node path s and n g path deps s arbitrary: s' and s' rule: dfs_dfsDeps.induct)
  case (1 g node path s)
  then show ?case by simp
next
  case (2 n g node path s)
  define s1 where "s1 = s\<lparr>visited := setAdd node (visited s),
                           recursionStack := setAdd node (recursionStack s)\<rparr>"
  note fin = "2.prems"(12) and closed = "2.prems"(13)
  from "2.prems" have d: "distinct (visited s)" and v: "set (visited s) \<subseteq> N"
    by (simp_all add: dfsInv_def)
  from "2.prems" have p: "path = butlast path @ [node]" by (metis append_butlast_last_id)
  from "2.prems" subseq_set have b: "set (butlast path) \<subseteq> set (visited s)" by blast
  with "2.prems" have nb: "node \<notin> set (butlast path)" by blast
  have vis1: "visited s1 = visited s @ [node]"
    using "2.prems" by (simp add: s1_def setAdd_new)
  have stack1: "recursionStack s1 = path"
    using "2.prems" nb p by (simp add: s1_def setAdd_new)
  have inv1: "dfsInv N s1"
    using dfsInv_visit [OF "2.prems"(1) "2.prems"(5) "2.prems"(4)] "2.prems"(4)
    by (simp add: s1_def setAdd_new dfsInv_def)
  have sub1: "subseq path (visited s1)"
    using "2.prems"(7) by (subst p) (simp add: vis1)
  have rem: "removeAll node path = butlast path"
    using nb by (subst p) simp
  have bound: "card N \<le> length path + n"
    using "2.prems" by simp
  have c1: "cycles s1 = cycles s" by (simp add: s1_def)
  have "finishedNode s1 a \<Longrightarrow> finishedNode s a" for a
    unfolding finishedNode_def vis1 stack1 using "2.prems"(6) by (subst (asm) p) auto
  with "2.prems"(10) c1 have e1: "edgeInv N g s1" by (rule edgeInv_mono)
  show ?case
  proof (cases "mapGet g node")
    case None
    with "2.prems"(11) have s': "s' = s1\<lparr>recursionStack := butlast path\<rparr>"
      by (simp add: s1_def [symmetric] Let_def stack1 rem)
    from None have "\<not> hasEdge g node b" for b by (simp add: hasEdge_def)
    with edgeInv_exit [OF e1 stack1 "2.prems"(2,3)] have "edgeInv N g s'" unfolding s' by blast
    with c1 show ?thesis by (simp add: s')
  next
    case (Some deps)
    with closed have dN: "set deps \<subseteq> N" by blast
    from Some "2.prems"(11) obtain s2 where s2: "dfsDeps n g path deps s1 = Some s2"
      and s': "s' = s2\<lparr>recursionStack := removeAll node (recursionStack s2)\<rparr>"
      by (auto simp: s1_def [symmetric] Let_def split: option.splits)
    from dfsDeps_result [OF fin closed inv1 stack1 sub1 dN bound s2]
    have r2: "dfsInv N s2" "prefix (visited s1) (visited s2)" "recursionStack s2 = path"
      by (simp_all add: stack1)
    from Some "2.prems"(3) have he: "\<forall>d \<in> set deps. hasEdge g (last path) d"
      by (simp add: hasEdge_def)
    have ih: "edgeInv N g s2 \<and> set (cycles s1) \<subseteq> set (cycles s2) \<and> set deps \<subseteq> set (visited s2)
             \<and> (\<forall>d \<in> set deps. d \<in> set path
                   \<longrightarrow> keyRecorded s2 (dropWhile (\<lambda>n. n \<noteq> d) path @ [d]))"
      using inv1 stack1 sub1 dN bound "2.prems"(2,9) he e1 s2 fin closed Some
      by (intro "2.IH") (simp_all add: s1_def)
    from r2(1) have v2: "set (visited s2) \<subseteq> N" by (simp add: dfsInv_def)
    from sub1 r2(2) have "subseq path (visited s2)"
      by (meson prefix_imp_subseq subseq_order.trans)
    with subseq_set have pv: "set path \<subseteq> set (visited s2)" by blast
    have node: "\<exists>c. c \<noteq> [] \<and> node \<in> set c \<and> b \<in> set c \<and> set c \<subseteq> N \<and> keyRecorded s2 c"
      if h: "hasEdge g node b" "hasEdge g b node" for b
    proof -
      from h(1) Some have bd: "b \<in> set deps" by (simp add: hasEdge_def)
      with ih have bv: "b \<in> set (visited s2)" by blast
      show ?thesis
      proof (cases "b \<in> set path")
        case True
        let ?c = "dropWhile (\<lambda>n. n \<noteq> b) path"
        from True bd ih have "keyRecorded s2 (?c @ [b])" by blast
        moreover from True have "?c \<noteq> []" by simp
        with last_dropWhile_mem [OF True] "2.prems"(3) have "node \<in> set ?c"
          by (metis last_in_set)
        moreover have "set ?c \<subseteq> set path" by (meson set_dropWhileD subsetI)
        with pv v2 bv have "set (?c @ [b]) \<subseteq> N" by auto
        ultimately show ?thesis by (intro exI [of _ "?c @ [b]"]) simp
      next
        case False
        with bv r2(3) have "finishedNode s2 b" by (simp add: finishedNode_def)
        with ih h obtain c where "c \<noteq> []" "b \<in> set c" "node \<in> set c" "set c \<subseteq> N" "keyRecorded s2 c"
          unfolding edgeInv_def by blast
        then show ?thesis by blast
      qed
    qed
    from ih have "edgeInv N g s2" by simp
    from edgeInv_exit [OF this r2(3) "2.prems"(2,3) node] have "edgeInv N g s'"
      by (simp add: s' r2(3) rem)
    moreover from ih c1 have "set (cycles s) \<subseteq> set (cycles s')" by (simp add: s')
    ultimately show ?thesis by simp
  qed
next
  case (3 n g path s)
  then show ?case by simp
next
  case (4 n g path dep deps s)
  note fin = "4.prems"(11) and closed = "4.prems"(12)
  from "4.prems" have d: "distinct (visited s)" and v: "set (visited s) \<subseteq> N"
    by (simp_all add: dfsInv_def)
  from "4.prems" have dN: "dep \<in> N" "set deps \<subseteq> N" by simp_all
  from "4.prems"(3) subseq_set have pv: "set path \<subseteq> set (visited s)" by blast
  from "4.prems"(8) have he: "hasEdge g (last path) dep" "\<forall>d \<in> set deps. hasEdge g (last path) d"
    by simp_all
  show ?case
  proof (cases "dep \<in> set (visited s)")
    case False
    with "4.prems"(10) obtain s1 where s1: "dfs n g dep (path @ [dep]) s = Some s1"
      and s': "dfsDeps n g path deps s1 = Some s'"
      by (auto split: option.splits)
    have su: "successively (hasEdge g) (path @ [dep])"
      using "4.prems"(6,7) he(1) by (simp add: successively_append_iff)
    have pre: "dfsInv N s" "path @ [dep] \<noteq> []" "last (path @ [dep]) = dep" "dep \<notin> set (visited s)"
      "dep \<in> N" "recursionStack s = butlast (path @ [dep])" "subseq (butlast (path @ [dep])) (visited s)"
      "card N < length (path @ [dep]) + n"
      using "4.prems" False dN by simp_all
    from dfs_result [OF fin closed pre s1]
    have r1: "dfsInv N s1" "prefix (visited s) (visited s1)" "recursionStack s1 = path"
      "dep \<in> set (visited s1)"
      using "4.prems"(2) by simp_all
    have ih1: "edgeInv N g s1 \<and> set (cycles s) \<subseteq> set (cycles s1)"
      using pre su "4.prems"(9) s1 fin closed False by (intro "4.IH"(1)) simp_all
    from r1(2) "4.prems"(3) have sub: "subseq path (visited s1)"
      by (meson prefix_imp_subseq subseq_order.trans)
    from dfsDeps_result [OF fin closed r1(1,3) sub dN(2) "4.prems"(5) s']
    have r2: "prefix (visited s1) (visited s')" by simp
    have ih2: "edgeInv N g s' \<and> set (cycles s1) \<subseteq> set (cycles s') \<and> set deps \<subseteq> set (visited s')
             \<and> (\<forall>d \<in> set deps. d \<in> set path
                   \<longrightarrow> keyRecorded s' (dropWhile (\<lambda>n. n \<noteq> d) path @ [d]))"
      using r1 sub dN "4.prems"(5,6,7) he(2) ih1 s' fin closed False s1
      by (intro "4.IH"(2)) simp_all
    from r1(4) r2 have "dep \<in> set (visited s')" by (auto simp: prefix_def)
    moreover from False pv have "dep \<notin> set path" by blast
    ultimately show ?thesis using ih1 ih2 by auto
  next
    case True
    show ?thesis
    proof (cases "dep \<in> set (recursionStack s)")
      case onstack: True
      let ?s = "recordCycle path dep s"
      from onstack "4.prems" have dp: "dep \<in> set path" by simp
      with "4.prems" have inv: "dfsInv N ?s"
        by (intro dfsInv_recordCycle) simp_all
      from True onstack "4.prems"(10) have s': "dfsDeps n g path deps ?s = Some s'" by simp
      from edgeInv_recordCycle [OF "4.prems"(9) d dp "4.prems"(3,7) he(1)]
      have rc: "edgeInv N g ?s" "set (cycles s) \<subseteq> set (cycles ?s)"
        "keyRecorded ?s (dropWhile (\<lambda>n. n \<noteq> dep) path @ [dep])"
        by simp_all
      have pre: "recursionStack ?s = path" "subseq path (visited ?s)"
        using "4.prems" by simp_all
      from dfsDeps_result [OF fin closed inv pre dN(2) "4.prems"(5) s']
      have r2: "prefix (visited s) (visited s')" by simp
      have ih: "edgeInv N g s' \<and> set (cycles ?s) \<subseteq> set (cycles s') \<and> set deps \<subseteq> set (visited s')
             \<and> (\<forall>d \<in> set deps. d \<in> set path
                   \<longrightarrow> keyRecorded s' (dropWhile (\<lambda>n. n \<noteq> d) path @ [d]))"
        using inv pre dN "4.prems"(5,6,7) he(2) rc(1) s' fin closed True onstack
        by (intro "4.IH"(3)) simp_all
      from True r2 have "dep \<in> set (visited s')" by (auto simp: prefix_def)
      moreover from rc(3) ih have "keyRecorded s' (dropWhile (\<lambda>n. n \<noteq> dep) path @ [dep])"
        by (blast intro: keyRecorded_mono)
      ultimately show ?thesis using ih rc(2) by auto
    next
      case False
      from True False "4.prems"(10) have s': "dfsDeps n g path deps s = Some s'" by simp
      from dfsDeps_result [OF fin closed "4.prems"(1,2,3) dN(2) "4.prems"(5) s']
      have r2: "prefix (visited s) (visited s')" by simp
      have ih: "edgeInv N g s' \<and> set (cycles s) \<subseteq> set (cycles s') \<and> set deps \<subseteq> set (visited s')
             \<and> (\<forall>d \<in> set deps. d \<in> set path
                   \<longrightarrow> keyRecorded s' (dropWhile (\<lambda>n. n \<noteq> d) path @ [d]))"
        using "4.prems" dN he(2) s' True False
        by (intro "4.IH"(4)) simp_all
      from True r2 have "dep \<in> set (visited s')" by (auto simp: prefix_def)
      moreover from False "4.prems"(2) have "dep \<notin> set path" by simp
      ultimately show ?thesis using ih by auto
    qed
  qed
qed


lemma dfsAll_edges:
  fixes N :: "string set"
  assumes "finite N" and "\<And>k ds. mapGet g k = Some ds \<Longrightarrow> set ds \<subseteq> N"
  shows "dfsInv N s \<Longrightarrow> recursionStack s = [] \<Longrightarrow> set files \<subseteq> N \<Longrightarrow> card N \<le> n
         \<Longrightarrow> edgeInv N g s \<Longrightarrow> dfsAll n g files s = Some s'
         \<Longrightarrow> edgeInv N g s' \<and> set files \<subseteq> set (visited s') \<and> set (visited s) \<subseteq> set (visited s')"
proof (induction files arbitrary: s)
  case Nil
  then show ?case by simp
next
  case (Cons f fs)
  show ?case
  proof (cases "f \<in> set (visited s)")
    case True
    with Cons.prems have "dfsAll n g fs s = Some s'" by simp
    with Cons.IH [of s] Cons.prems True show ?thesis by auto
  next
    case False
    with Cons.prems(6) obtain s1 where s1: "dfs n g f [f] s = Some s1" and s': "dfsAll n g fs s1 = Some s'"
      by (auto split: option.splits)
    have pre: "dfsInv N s" "[f] \<noteq> []" "last [f] = f" "f \<notin> set (visited s)" "f \<in> N"
      "recursionStack s = butlast [f]" "subseq (butlast [f]) (visited s)" "card N < length [f] + n"
      using Cons.prems False by simp_all
    from dfs_result [OF assms pre s1]
    have r1: "dfsInv N s1" "prefix (visited s) (visited s1)" "recursionStack s1 = []" "f \<in> set (visited s1)"
      using Cons.prems(2) by simp_all
    from dfs_edges(1) [OF assms pre _ Cons.prems(5) s1] have e1: "edgeInv N g s1" by simp
    from Cons.IH [OF r1(1,3) _ Cons.prems(4) e1 s'] Cons.prems(3)
    have "edgeInv N g s'" "set fs \<subseteq> set (visited s')" "set (visited s1) \<subseteq> set (visited s')"
      by simp_all
    moreover from r1(2) have "set (visited s) \<subseteq> set (visited s1)" by (auto simp: prefix_def)
    ultimately show ?thesis using r1(4) by auto
  qed
qed

lemma edgeInv_initial: "edgeInv N g \<lparr> visited = [], recursionStack = [], cycles = [] \<rparr>"
  by (simp add: edgeInv_def finishedNode_def)

lemma dfsAll_graph_edges:
  "\<exists>s'. dfsAll (Suc (length (importNodes g))) g (map fst g)
            \<lparr> visited = [], recursionStack = [], cycles = [] \<rparr> = Some s'
        \<and> dfsInv (set (importNodes g)) s' \<and> edgeInv (set (importNodes g)) g s'
        \<and> recursionStack s' = [] \<and> fst ` set g \<subseteq> set (visited s')"
proof -
  let ?N = "set (importNodes g)"
  let ?s = "\<lparr> visited = [], recursionStack = [], cycles = [] \<rparr>"
  have card: "card ?N \<le> Suc (length (importNodes g))"
    using card_length [of "importNodes g"] by simp
  have keys: "set (map fst g) \<subseteq> ?N"
    by (simp add: importNodes_def)
  have closed: "mapGet g k = Some ds \<Longrightarrow> set ds \<subseteq> ?N" for k ds
    by (rule importNodes_closed)
  have "\<exists>s'. dfsAll (Suc (length (importNodes g))) g (map fst g) ?s = Some s'
        \<and> dfsInv ?N s' \<and> recursionStack s' = []"
    using card keys closed by (intro dfsAll_total dfsInv_initial) simp_all
  then obtain s' where s': "dfsAll (Suc (length (importNodes g))) g (map fst g) ?s = Some s'"
    "dfsInv ?N s'" "recursionStack s' = []"
    by blast
  have "edgeInv ?N g s' \<and> set (map fst g) \<subseteq> set (visited s') \<and> set (visited ?s) \<subseteq> set (visited s')"
    using closed keys card s'(1)
    by (intro dfsAll_edges [where s = ?s and n = "Suc (length (importNodes g))"] dfsInv_initial
        edgeInv_initial) simp_all
  with s' show ?thesis by auto
qed

lemma hasEdge_key: "hasEdge g a b \<Longrightarrow> a \<in> fst ` set g"
  by (auto simp: hasEdge_def mapGet_def split: option.splits dest!: map_of_SomeD intro: rev_image_eqI)

lemma entry_nodes:
  assumes "dfsInv N s" "e \<in> set (cycles s)"
  shows "circ_cycle e \<noteq> [] \<and> set (circ_cycle e) \<subseteq> N
         \<and> set (butlast (circ_cycle e)) = set (circ_cycle e)
         \<and> circ_cycle e = butlast (circ_cycle e) @ [hd (butlast (circ_cycle e))]"
proof -
  from assms obtain c where c: "c \<noteq> []" "circ_cycle e = c @ [hd c]" "subseq c (visited s)"
    unfolding dfsInv_def cycleOf_def by blast
  from c(3) subseq_set assms(1) have "set c \<subseteq> N" unfolding dfsInv_def by blast
  with c(1,2) show ?thesis by auto
qed

lemma mutual_import_reported:
  assumes "dfsInv N s" "edgeInv N g s" "recursionStack s = []" "fst ` set g \<subseteq> set (visited s)"
    and "hasEdge g x y" "hasEdge g y x" "\<forall>n \<in> N. \<not> sublist ''->'' n"
  shows "\<exists>e \<in> set (cycles s). x \<in> set (circ_cycle e) \<and> y \<in> set (circ_cycle e)"
proof -
  from hasEdge_key [OF assms(5)] assms(3,4) have "finishedNode s x"
    by (auto simp: finishedNode_def)
  with assms(2,5,6) obtain c where c: "c \<noteq> []" "x \<in> set c" "y \<in> set c" "set c \<subseteq> N" "keyRecorded s c"
    unfolding edgeInv_def by blast
  from c(5) obtain e where e: "e \<in> set (cycles s)" "cycleKey (circ_cycle e) = cycleKey c"
    unfolding keyRecorded_def by blast
  from entry_nodes [OF assms(1) e(1)] have n: "circ_cycle e \<noteq> []" "set (circ_cycle e) \<subseteq> N" by simp_all
  from n(2) c(4) assms(7) have "\<forall>n \<in> set (circ_cycle e) \<union> set c. \<not> sublist ''->'' n" by blast
  from cycleKey_set [OF e(2) n(1) c(1) this] c(2,3) e(1) show ?thesis by blast
qed

lemma two_cycle:
  assumes "distinct c" "set c = {x, y}" "x \<noteq> y"
  shows "c = [x, y] \<or> c = [y, x]"
proof -
  from assms have "length c = 2"
    by (metis card_2_iff distinct_card)
  then obtain a b where c: "c = [a, b]"
    by (metis (no_types, opaque_lifting) One_nat_def Suc_1 length_0_conv length_Suc_conv)
  with assms show ?thesis by auto
qed

lemma mutual_import_shape:
  assumes "dfsInv N s" "edgeInv N g s" "x \<noteq> y"
    and "\<forall>c. importCycle g c \<and> x \<in> set c \<and> y \<in> set c \<longrightarrow> set c = {x, y}"
    and "e \<in> set (cycles s)" "x \<in> set (circ_cycle e)" "y \<in> set (circ_cycle e)"
  shows "butlast (circ_cycle e) = [x, y] \<and> circ_cycle e = [x, y, x]
         \<or> butlast (circ_cycle e) = [y, x] \<and> circ_cycle e = [y, x, y]"
proof -
  let ?c = "butlast (circ_cycle e)"
  from entry_nodes [OF assms(1,5)] have n: "set ?c = set (circ_cycle e)"
    "circ_cycle e = ?c @ [hd ?c]" by simp_all
  from assms(2,5) have ic: "importCycle g ?c" by (simp add: edgeInv_def)
  moreover from assms(6,7) n(1) have "x \<in> set ?c" "y \<in> set ?c" by simp_all
  ultimately have "set ?c = {x, y}" using assms(4) by blast
  moreover from ic have "distinct ?c" by (simp add: importCycle_def)
  ultimately have "?c = [x, y] \<or> ?c = [y, x]" using assms(3) two_cycle [of ?c x y] by blast
  with n(2) show ?thesis by auto
qed

lemma mutual_import_unique:
  assumes "dfsInv N s" "edgeInv N g s" "x \<noteq> y"
    and "\<forall>c. importCycle g c \<and> x \<in> set c \<and> y \<in> set c \<longrightarrow> set c = {x, y}"
    and "i < length (cycles s)" "x \<in> set (circ_cycle (cycles s ! i))" "y \<in> set (circ_cycle (cycles s ! i))"
    and "j < length (cycles s)" "x \<in> set (circ_cycle (cycles s ! j))" "y \<in> set (circ_cycle (cycles s ! j))"
  shows "j = i"
proof (rule ccontr)
  assume ne: "j \<noteq> i"
  let ?ci = "butlast (circ_cycle (cycles s ! i))" and ?cj = "butlast (circ_cycle (cycles s ! j))"
  from mutual_import_shape [OF assms(1-4) _ assms(6,7)] assms(5)
  have i: "?ci = [x, y] \<or> ?ci = [y, x]" by auto
  from mutual_import_shape [OF assms(1-4) _ assms(9,10)] assms(8)
  have j: "?cj = [x, y] \<or> ?cj = [y, x]" by auto
  from i j have "?cj = rotate 0 ?ci \<or> ?cj = rotate 1 ?ci" by auto
  with no_rotations [OF assms(1,5,8)] ne show False by blast
qed

lemma successively_next:
  "successively P xs \<Longrightarrow> n \<in> set (butlast xs) \<Longrightarrow> \<exists>m. P n m"
proof (induction xs)
  case Nil
  then show ?case by simp
next
  case (Cons a xs)
  show ?case
  proof (cases xs)
    case Nil
    with Cons.prems show ?thesis by simp
  next
    case (Cons b ys)
    with Cons.prems Cons.IH show ?thesis by auto
  qed
qed

lemma importCycle_edge:
  assumes "importCycle g c" "n \<in> set c"
  shows "\<exists>m. hasEdge g n m"
proof -
  from assms(1) have c: "c \<noteq> []" "successively (hasEdge g) c" "hasEdge g (last c) (hd c)"
    by (simp_all add: importCycle_def)
  from c(1) obtain ys z where yz: "c = ys @ [z]" by (cases c rule: rev_cases) auto
  show ?thesis
  proof (cases "n = z")
    case True
    with c(3) yz show ?thesis by auto
  next
    case False
    with assms(2) yz have "n \<in> set (butlast c)" by simp
    with c(2) show ?thesis by (rule successively_next)
  qed
qed

text \<open>
  C7, as the code has it. Let \<open>x\<close> import \<open>y\<close> and \<open>y\<close> import \<open>x\<close> in the import
  graph of a scan none of whose paths contains the text \<open>->\<close>. Then the traversal
  returns and an entry of the report contains \<open>x\<close> and \<open>y\<close>, in whatever order
  the files were scanned. When the cycle of \<open>x\<close> and \<open>y\<close> is the only cycle of the
  import graph through both files, exactly one entry contains them, and it is
  \<open>x, y, x\<close> or \<open>y, x, y\<close>. For every scan the traversal returns and no two reported
  entries are rotations of one another. For the project of the two files alone, the
  one entry is the cycle from the file that is scanned first.
\<close>

theorem circular_dependencies:
  "(hasEdge (importGraphOf paths fileInfos) x y \<and> hasEdge (importGraphOf paths fileInfos) y x
      \<and> (\<forall>n \<in> set (importNodes (importGraphOf paths fileInfos)). \<not> sublist ''->'' n)
     \<longrightarrow> (\<exists>cs. detectCircularDependencies paths fileInfos = Some cs
            \<and> (\<exists>e \<in> set cs. x \<in> set (circ_cycle e) \<and> y \<in> set (circ_cycle e))
            \<and> (x \<noteq> y
                 \<and> (\<forall>c. importCycle (importGraphOf paths fileInfos) c \<and> x \<in> set c \<and> y \<in> set c
                        \<longrightarrow> set c = {x, y})
                \<longrightarrow> (\<exists>i < length cs.
                        (circ_cycle (cs ! i) = [x, y, x] \<or> circ_cycle (cs ! i) = [y, x, y])
                        \<and> (\<forall>j < length cs.
                              x \<in> set (circ_cycle (cs ! j)) \<and> y \<in> set (circ_cycle (cs ! j))
                              \<longrightarrow> j = i)))))
   \<and> (\<exists>cs. detectCircularDependencies paths fileInfos = Some cs
          \<and> (\<forall>i < length cs. \<forall>j < length cs. i \<noteq> j \<longrightarrow>
                (\<forall>n. butlast (circ_cycle (cs ! j)) \<noteq> rotate n (butlast (circ_cycle (cs ! i))))))
   \<and> (x \<noteq> y \<and> file_relativePath fx = x \<and> file_relativePath fy = y
      \<and> fileDeps paths fx = [y] \<and> fileDeps paths fy = [x] \<longrightarrow>
        detectCircularDependencies paths [fx, fy]
          = Some [\<lparr> circ_cycle = [x, y, x],
                    circ_description = ''Circular: '' @ x @ '' -> '' @ y @ '' -> '' @ x \<rparr>]
      \<and> detectCircularDependencies paths [fy, fx]
          = Some [\<lparr> circ_cycle = [y, x, y],
                    circ_description = ''Circular: '' @ y @ '' -> '' @ x @ '' -> '' @ y \<rparr>])"
proof -
  let ?g = "importGraphOf paths fileInfos"
  from dfsAll_graph_edges [of ?g] obtain s where
    s: "dfsAll (Suc (length (importNodes ?g))) ?g (map fst ?g)
            \<lparr> visited = [], recursionStack = [], cycles = [] \<rparr> = Some s"
      "dfsInv (set (importNodes ?g)) s" "edgeInv (set (importNodes ?g)) ?g s"
      "recursionStack s = []" "fst ` set ?g \<subseteq> set (visited s)"
    by blast
  then have r: "detectCircularDependencies paths fileInfos = Some (cycles s)"
    by (simp add: detectCircularDependencies_def Let_def)
  have A: "hasEdge ?g x y \<and> hasEdge ?g y x \<and> (\<forall>n \<in> set (importNodes ?g). \<not> sublist ''->'' n)
     \<longrightarrow> (\<exists>cs. detectCircularDependencies paths fileInfos = Some cs
            \<and> (\<exists>e \<in> set cs. x \<in> set (circ_cycle e) \<and> y \<in> set (circ_cycle e))
            \<and> (x \<noteq> y
                 \<and> (\<forall>c. importCycle ?g c \<and> x \<in> set c \<and> y \<in> set c \<longrightarrow> set c = {x, y})
                \<longrightarrow> (\<exists>i < length cs.
                        (circ_cycle (cs ! i) = [x, y, x] \<or> circ_cycle (cs ! i) = [y, x, y])
                        \<and> (\<forall>j < length cs.
                              x \<in> set (circ_cycle (cs ! j)) \<and> y \<in> set (circ_cycle (cs ! j))
                              \<longrightarrow> j = i))))"
  proof
    assume "hasEdge ?g x y \<and> hasEdge ?g y x \<and> (\<forall>n \<in> set (importNodes ?g). \<not> sublist ''->'' n)"
    then have h: "hasEdge ?g x y" "hasEdge ?g y x" "\<forall>n \<in> set (importNodes ?g). \<not> sublist ''->'' n"
      by simp_all
    from mutual_import_reported [OF s(2,3,4,5) h]
    obtain e where e: "e \<in> set (cycles s)" "x \<in> set (circ_cycle e)" "y \<in> set (circ_cycle e)"
      by blast
    then obtain i where i: "i < length (cycles s)" "cycles s ! i = e"
      by (auto simp: in_set_conv_nth)
    have "\<exists>i < length (cycles s).
            (circ_cycle (cycles s ! i) = [x, y, x] \<or> circ_cycle (cycles s ! i) = [y, x, y])
            \<and> (\<forall>j < length (cycles s).
                  x \<in> set (circ_cycle (cycles s ! j)) \<and> y \<in> set (circ_cycle (cycles s ! j))
                  \<longrightarrow> j = i)"
      if "x \<noteq> y \<and> (\<forall>c. importCycle ?g c \<and> x \<in> set c \<and> y \<in> set c \<longrightarrow> set c = {x, y})"
    proof -
      from that have u: "x \<noteq> y" "\<forall>c. importCycle ?g c \<and> x \<in> set c \<and> y \<in> set c \<longrightarrow> set c = {x, y}"
        by simp_all
      from mutual_import_shape [OF s(2,3) u e]
      have "circ_cycle e = [x, y, x] \<or> circ_cycle e = [y, x, y]" by blast
      moreover have "j = i"
        if "j < length (cycles s)" "x \<in> set (circ_cycle (cycles s ! j))"
          "y \<in> set (circ_cycle (cycles s ! j))" for j
        using mutual_import_unique [OF s(2,3) u i(1) _ _ that] e(2,3) i(2) by simp
      ultimately show ?thesis using i by blast
    qed
    with e have "(\<exists>e \<in> set (cycles s). x \<in> set (circ_cycle e) \<and> y \<in> set (circ_cycle e))
            \<and> (x \<noteq> y
                 \<and> (\<forall>c. importCycle ?g c \<and> x \<in> set c \<and> y \<in> set c \<longrightarrow> set c = {x, y})
                \<longrightarrow> (\<exists>i < length (cycles s).
                        (circ_cycle (cycles s ! i) = [x, y, x] \<or> circ_cycle (cycles s ! i) = [y, x, y])
                        \<and> (\<forall>j < length (cycles s).
                              x \<in> set (circ_cycle (cycles s ! j)) \<and> y \<in> set (circ_cycle (cycles s ! j))
                              \<longrightarrow> j = i)))"
      by blast
    with r show "\<exists>cs. detectCircularDependencies paths fileInfos = Some cs
            \<and> (\<exists>e \<in> set cs. x \<in> set (circ_cycle e) \<and> y \<in> set (circ_cycle e))
            \<and> (x \<noteq> y
                 \<and> (\<forall>c. importCycle ?g c \<and> x \<in> set c \<and> y \<in> set c \<longrightarrow> set c = {x, y})
                \<longrightarrow> (\<exists>i < length cs.
                        (circ_cycle (cs ! i) = [x, y, x] \<or> circ_cycle (cs ! i) = [y, x, y])
                        \<and> (\<forall>j < length cs.
                              x \<in> set (circ_cycle (cs ! j)) \<and> y \<in> set (circ_cycle (cs ! j))
                              \<longrightarrow> j = i)))"
      by (intro exI [of _ "cycles s"] conjI) simp_all
  qed
  have "\<forall>i < length (cycles s). \<forall>j < length (cycles s). i \<noteq> j \<longrightarrow>
             (\<forall>n. butlast (circ_cycle (cycles s ! j)) \<noteq> rotate n (butlast (circ_cycle (cycles s ! i))))"
    using no_rotations [OF s(2)] by blast
  with r have B: "\<exists>cs. detectCircularDependencies paths fileInfos = Some cs
          \<and> (\<forall>i < length cs. \<forall>j < length cs. i \<noteq> j \<longrightarrow>
                (\<forall>n. butlast (circ_cycle (cs ! j)) \<noteq> rotate n (butlast (circ_cycle (cs ! i)))))"
    by (intro exI [of _ "cycles s"] conjI) simp_all
  have C: "x \<noteq> y \<and> file_relativePath fx = x \<and> file_relativePath fy = y
      \<and> fileDeps paths fx = [y] \<and> fileDeps paths fy = [x] \<longrightarrow>
        detectCircularDependencies paths [fx, fy]
          = Some [\<lparr> circ_cycle = [x, y, x],
                    circ_description = ''Circular: '' @ x @ '' -> '' @ y @ '' -> '' @ x \<rparr>]
      \<and> detectCircularDependencies paths [fy, fx]
          = Some [\<lparr> circ_cycle = [y, x, y],
                    circ_description = ''Circular: '' @ y @ '' -> '' @ x @ '' -> '' @ y \<rparr>]"
  proof
    assume "x \<noteq> y \<and> file_relativePath fx = x \<and> file_relativePath fy = y
      \<and> fileDeps paths fx = [y] \<and> fileDeps paths fy = [x]"
    then have h: "x \<noteq> y" "file_relativePath fx = x" "file_relativePath fy = y"
      "fileDeps paths fx = [y]" "fileDeps paths fy = [x]"
      by simp_all
    from two_files [OF h] two_files [OF h(1) [symmetric] h(3,2,5,4)]
    show "detectCircularDependencies paths [fx, fy]
          = Some [\<lparr> circ_cycle = [x, y, x],
                    circ_description = ''Circular: '' @ x @ '' -> '' @ y @ '' -> '' @ x \<rparr>]
      \<and> detectCircularDependencies paths [fy, fx]
          = Some [\<lparr> circ_cycle = [y, x, y],
                    circ_description = ''Circular: '' @ y @ '' -> '' @ x @ '' -> '' @ y \<rparr>]"
      by (simp add: circularEntry_def)
  qed
  show ?thesis by (rule conjI [OF A conjI [OF B C]])
qed

theorem circular_dependencies_witness:
  "(\<exists>cs. detectCircularDependencies (map file_path leafFiles) leafFiles = Some cs
      \<and> (\<exists>i < length cs.
            (circ_cycle (cs ! i) = [''x.ts'', ''y.ts'', ''x.ts'']
             \<or> circ_cycle (cs ! i) = [''y.ts'', ''x.ts'', ''y.ts''])
            \<and> (\<forall>j < length cs.
                  ''x.ts'' \<in> set (circ_cycle (cs ! j)) \<and> ''y.ts'' \<in> set (circ_cycle (cs ! j))
                  \<longrightarrow> j = i)))
   \<and> detectCircularDependencies (map file_path leafFiles) leafFiles
       = Some [\<lparr> circ_cycle = [''x.ts'', ''y.ts'', ''x.ts''],
                 circ_description = ''Circular: x.ts -> y.ts -> x.ts'' \<rparr>]
   \<and> detectCircularDependencies (map file_path leafFiles) (rev leafFiles)
       = Some [\<lparr> circ_cycle = [''y.ts'', ''x.ts'', ''y.ts''],
                 circ_description = ''Circular: y.ts -> x.ts -> y.ts'' \<rparr>]"
proof -
  let ?g = "importGraphOf (map file_path leafFiles) leafFiles"
  have g: "?g = [(''x.ts'', [''y.ts'', ''z.ts'']), (''y.ts'', [''x.ts'']), (''z.ts'', []), (''u.ts'', [])]"
    by code_simp
  have e: "hasEdge ?g ''x.ts'' ''y.ts''" "hasEdge ?g ''y.ts'' ''x.ts''"
    unfolding g by (simp_all add: hasEdge_def mapGet_def)
  have a: "\<forall>n \<in> set (importNodes ?g). \<not> sublist ''->'' n"
    unfolding g by (simp add: importNodes_def sublist_Cons_right)
  have src: "n = ''x.ts'' \<or> n = ''y.ts''" if "hasEdge ?g n m" for n m
    using that unfolding g by (simp add: hasEdge_def mapGet_def split: if_splits)
  have u: "\<forall>c. importCycle ?g c \<and> ''x.ts'' \<in> set c \<and> ''y.ts'' \<in> set c \<longrightarrow> set c = {''x.ts'', ''y.ts''}"
  proof (intro allI impI)
    fix c assume c: "importCycle ?g c \<and> ''x.ts'' \<in> set c \<and> ''y.ts'' \<in> set c"
    then have "n = ''x.ts'' \<or> n = ''y.ts''" if "n \<in> set c" for n
      using importCycle_edge [of ?g c n] that src by blast
    with c show "set c = {''x.ts'', ''y.ts''}" by blast
  qed
  have d: "''x.ts'' \<noteq> ''y.ts''" by simp
  have h: "hasEdge ?g ''x.ts'' ''y.ts'' \<and> hasEdge ?g ''y.ts'' ''x.ts''
           \<and> (\<forall>n \<in> set (importNodes ?g). \<not> sublist ''->'' n)"
    by (intro conjI e a)
  from circular_dependencies [of "map file_path leafFiles" leafFiles "''x.ts''" "''y.ts''",
      THEN conjunct1, THEN mp, OF h]
  obtain cs where cs: "detectCircularDependencies (map file_path leafFiles) leafFiles = Some cs"
    "''x.ts'' \<noteq> ''y.ts''
       \<and> (\<forall>c. importCycle ?g c \<and> ''x.ts'' \<in> set c \<and> ''y.ts'' \<in> set c \<longrightarrow> set c = {''x.ts'', ''y.ts''})
     \<longrightarrow> (\<exists>i < length cs.
            (circ_cycle (cs ! i) = [''x.ts'', ''y.ts'', ''x.ts'']
             \<or> circ_cycle (cs ! i) = [''y.ts'', ''x.ts'', ''y.ts''])
            \<and> (\<forall>j < length cs.
                  ''x.ts'' \<in> set (circ_cycle (cs ! j)) \<and> ''y.ts'' \<in> set (circ_cycle (cs ! j))
                  \<longrightarrow> j = i))"
    by blast
  from cs(2) [THEN mp, OF conjI [OF d u]] cs(1)
  have 1: "\<exists>cs. detectCircularDependencies (map file_path leafFiles) leafFiles = Some cs
      \<and> (\<exists>i < length cs.
            (circ_cycle (cs ! i) = [''x.ts'', ''y.ts'', ''x.ts'']
             \<or> circ_cycle (cs ! i) = [''y.ts'', ''x.ts'', ''y.ts''])
            \<and> (\<forall>j < length cs.
                  ''x.ts'' \<in> set (circ_cycle (cs ! j)) \<and> ''y.ts'' \<in> set (circ_cycle (cs ! j))
                  \<longrightarrow> j = i))"
    by (intro exI [of _ cs] conjI)
  have 2: "detectCircularDependencies (map file_path leafFiles) leafFiles
       = Some [\<lparr> circ_cycle = [''x.ts'', ''y.ts'', ''x.ts''],
                 circ_description = ''Circular: x.ts -> y.ts -> x.ts'' \<rparr>]"
    by code_simp
  have 3: "detectCircularDependencies (map file_path leafFiles) (rev leafFiles)
       = Some [\<lparr> circ_cycle = [''y.ts'', ''x.ts'', ''y.ts''],
                 circ_description = ''Circular: y.ts -> x.ts -> y.ts'' \<rparr>]"
    by code_simp
  show ?thesis by (rule conjI [OF 1 conjI [OF 2 3]])
qed

text \<open>
  The claim as stated fails. With a second cycle through \<open>x\<close> and \<open>y\<close> two entries
  contain both files. When the traversal reaches \<open>y\<close> by a detour first, no entry has
  just the two files. For the files \<^verbatim>\<open>a.ts\<close> and \<^verbatim>\<open>a.ts->a.ts\<close>, which import
  each other, the one entry is the import of the second file by itself and no entry
  contains \<^verbatim>\<open>a.ts\<close>, although the reverse order of the two files reports both cycles.
  And the keys of two rotations of a cycle differ.
\<close>

theorem circular_dependencies_counterexample:
  "map_option (map circ_cycle) (detectCircularDependencies (map file_path twoCyclesFiles) twoCyclesFiles)
     = Some [[''x.ts'', ''y.ts'', ''x.ts''], [''x.ts'', ''y.ts'', ''z.ts'', ''x.ts'']]
   \<and> map_option (map circ_cycle) (detectCircularDependencies (map file_path detourFiles) detourFiles)
     = Some [[''x.ts'', ''w.ts'', ''y.ts'', ''x.ts'']]
   \<and> hasEdge (importGraphOf (map file_path arrowFiles) arrowFiles) ''a.ts'' ''a.ts->a.ts''
   \<and> hasEdge (importGraphOf (map file_path arrowFiles) arrowFiles) ''a.ts->a.ts'' ''a.ts''
   \<and> map_option (map circ_cycle) (detectCircularDependencies (map file_path arrowFiles) arrowFiles)
     = Some [[''a.ts->a.ts'', ''a.ts->a.ts'']]
   \<and> map_option (map circ_cycle) (detectCircularDependencies (map file_path arrowFiles) (rev arrowFiles))
     = Some [[''a.ts->a.ts'', ''a.ts->a.ts''], [''a.ts->a.ts'', ''a.ts'', ''a.ts->a.ts'']]
   \<and> cycleKey [''x.ts'', ''y.ts'', ''x.ts''] \<noteq> cycleKey [''y.ts'', ''x.ts'', ''y.ts'']"
  by code_simp

subsection \<open>What the analyzers change\<close>















text \<open>
  The call graph of the report is the plain object, not the map: the entry of a caller
  named \<^verbatim>\<open>__proto__\<close> is in the forward graph and not in the report.
\<close>

lemma serializeCallGraph_proto:
  "callGraph (stateOf Angular protoProject)
     = [(''P.run'', [''__proto__'']), (''__proto__'', [''helper'']), (''helper'', [])]
   \<and> map_option out_callGraph (scan Angular protoProject)
     = Some [(''P.run'', [''__proto__'']), (''helper'', [])]"
  by code_simp

end
